theory Spec2Isabelle
  imports Complex_Main "HOL-Library.Word" "HOL-Library.Signed_Division"
begin

section \<open>The chain-history pruner of core/pruner.go\<close>

text \<open>
  A shallow embedding of \<^verbatim>\<open>core/pruner.go\<close>: the range calculator
  \<^verbatim>\<open>calculateNumOfPrunedBlocks\<close>, the key collector \<^verbatim>\<open>Prune\<close>, the
  cross-bucket cursor \<^verbatim>\<open>limitIterator\<close> and its driver \<^verbatim>\<open>batchDelete\<close>, the
  constructor \<^verbatim>\<open>NewBasicPruner\<close> and the prune branch of \<^verbatim>\<open>pruningLoop\<close>.
  Go's \<^verbatim>\<open>uint64\<close> is \<open>64 word\<close>; a \<^verbatim>\<open>[]byte\<close> is a list of bytes (\<^verbatim>\<open>nil\<close> is
  the empty list); a run-time panic and an \<^verbatim>\<open>error\<close> are values; a loop that the
  source does not bound is a partial function whose value \<open>None\<close> means that it does
  not return.
\<close>

subsection \<open>Data\<close>

type_synonym uint64 = "64 word"
type_synonym bytes = "8 word list"

text \<open>\<^verbatim>\<open>type Keys [][]byte\<close> and \<^verbatim>\<open>type Batch struct { bucket string; keys Keys }\<close>.\<close>

type_synonym Keys = "bytes list"

record Batch =
  bucket :: string
  keys :: Keys

record keysToRemove =
  AccountHistoryKeys :: Keys
  StorageHistoryKeys :: Keys
  AccountChangeSet :: Keys
  StorageChangeSet :: Keys
  StorageKeys :: Keys
  IntermediateTrieHashKeys :: Keys

definition newKeysToRemove :: keysToRemove where
  "newKeysToRemove =
     \<lparr>AccountHistoryKeys = [], StorageHistoryKeys = [], AccountChangeSet = [],
      StorageChangeSet = [], StorageKeys = [], IntermediateTrieHashKeys = []\<rparr>"

text \<open>
  The package \<^verbatim>\<open>dbutils\<close> is declared outside the source at hand. Its five bucket-name
  constants and its function \<^verbatim>\<open>CompositeKeySuffix\<close> (two results, of which \<^verbatim>\<open>Prune\<close>
  keeps the first) are parameters of the model.
\<close>

record dbutils =
  AccountsHistoryBucket :: string
  StorageHistoryBucket :: string
  HashedStorageBucket :: string
  PlainAccountChangeSetBucket :: string
  PlainStorageChangeSetBucket :: string
  CompositeKeySuffix :: "bytes \<Rightarrow> uint64 \<Rightarrow> bytes \<times> bytes"

text \<open>
  A Go \<^verbatim>\<open>error\<close> value: the configuration error built by \<^verbatim>\<open>NewBasicPruner\<close> (with the
  two values its message prints), or an error handed up by the store.
\<close>

datatype error = IncorrectConfig uint64 real | StoreError string

datatype panic = IndexOutOfRange

text \<open>
  The calls \<^verbatim>\<open>log.Warn\<close> of \<^verbatim>\<open>batchDelete\<close> (bucket, key, error) and \<^verbatim>\<open>log.Error\<close>
  of \<^verbatim>\<open>pruningLoop\<close>, in the order they are made. Debug and Info lines are left out.
\<close>

datatype logEntry = LogWarn string string bytes error | LogError string error

subsection \<open>The range calculator\<close>

definition calculateNumOfPrunedBlocks ::
  "uint64 \<Rightarrow> uint64 \<Rightarrow> uint64 \<Rightarrow> uint64 \<Rightarrow> uint64 \<times> uint64 \<times> bool" where
  "calculateNumOfPrunedBlocks currentBlock lastPrunedBlock blocksBeforePruning blocksBatch =
     (if currentBlock \<le> lastPrunedBlock then (lastPrunedBlock, lastPrunedBlock, False)
      else
        let diff = currentBlock - lastPrunedBlock in
        if diff \<le> blocksBeforePruning then (lastPrunedBlock, lastPrunedBlock, False)
        else
          let diff = diff - blocksBeforePruning in
          if diff \<ge> blocksBatch then (lastPrunedBlock, lastPrunedBlock + blocksBatch, True)
          else if diff < blocksBatch then (lastPrunedBlock, lastPrunedBlock + diff, True)
          else (lastPrunedBlock, lastPrunedBlock, False))"

subsection \<open>The cursor over the key groups\<close>

text \<open>
  \<^verbatim>\<open>limit\<close> and \<^verbatim>\<open>currentNum\<close> are Go \<^verbatim>\<open>int\<close>s. \<^verbatim>\<open>currentNum\<close> is only ever
  incremented after the test \<^verbatim>\<open>limit <= currentNum\<close> failed or after it was reset to 0,
  so it stays within the range of \<^verbatim>\<open>limit\<close> and is modelled by an unbounded integer;
  \<^verbatim>\<open>counter\<close> is a \<^verbatim>\<open>uint64\<close> and wraps.
\<close>

record limitIterator =
  k :: keysToRemove
  counter :: uint64
  currentBucket :: string
  currentNum :: int
  limit :: int
  batches :: "Batch list"

definition LimitIterator :: "dbutils \<Rightarrow> keysToRemove \<Rightarrow> int \<Rightarrow> limitIterator" where
  "LimitIterator dbu ks lmt =
     \<lparr>k = ks, counter = 0, currentBucket = [], currentNum = 0, limit = lmt,
      batches =
        [\<lparr>bucket = AccountsHistoryBucket dbu, keys = AccountHistoryKeys ks\<rparr>,
         \<lparr>bucket = StorageHistoryBucket dbu, keys = StorageHistoryKeys ks\<rparr>,
         \<lparr>bucket = HashedStorageBucket dbu, keys = StorageKeys ks\<rparr>,
         \<lparr>bucket = PlainAccountChangeSetBucket dbu, keys = AccountChangeSet ks\<rparr>,
         \<lparr>bucket = PlainStorageChangeSetBucket dbu, keys = StorageChangeSet ks\<rparr>]\<rparr>"

definition ResetLimit :: "limitIterator \<Rightarrow> limitIterator" where
  "ResetLimit i = i\<lparr>counter := 0\<rparr>"

text \<open>\<^verbatim>\<open>i.batches[len(i.batches)-1]\<close> panics on an empty slice.\<close>

definition HasMore :: "limitIterator \<Rightarrow> panic + bool" where
  "HasMore i =
     (if batches i = [] then Inl IndexOutOfRange
      else
        let lastBatch = batches i ! (length (batches i) - 1) in
        if currentBucket i = bucket lastBatch \<and> int (length (keys lastBatch)) = currentNum i
        then Inr False
        else Inr True)"

text \<open>
  The loop of \<^verbatim>\<open>updateBucket\<close> over \<^verbatim>\<open>i.batches\<close>: the list argument is the part of
  the slice from \<^verbatim>\<open>batchIndex\<close> on, so the one-element list is the case
  \<^verbatim>\<open>batchIndex == len(i.batches)-1\<close> and \<^verbatim>\<open>i.batches[batchIndex+1]\<close> is the second
  element.
\<close>

fun updateBucket_range :: "Batch list \<Rightarrow> limitIterator \<Rightarrow> limitIterator" where
  "updateBucket_range [] i = i"
| "updateBucket_range [lastBatch] i = i"
| "updateBucket_range (batch # nextBatch # rest) i =
     updateBucket_range (nextBatch # rest)
       (if currentBucket i = bucket batch \<and> int (length (keys batch)) = currentNum i
        then i\<lparr>currentBucket := bucket nextBatch, currentNum := 0\<rparr>
        else i)"

definition updateBucket :: "limitIterator \<Rightarrow> panic + limitIterator" where
  "updateBucket i =
     (if currentBucket i = [] then
        (case batches i of
           [] \<Rightarrow> Inl IndexOutOfRange
         | batch0 # _ \<Rightarrow> Inr (updateBucket_range (batches i) (i\<lparr>currentBucket := bucket batch0\<rparr>)))
      else Inr (updateBucket_range (batches i) i))"

text \<open>
  The loop of \<^verbatim>\<open>GetNext\<close>, with the same reading of the list argument.
  \<^verbatim>\<open>batch.keys[i.currentNum]\<close> panics out of range.
\<close>

fun GetNext_range :: "Batch list \<Rightarrow> limitIterator \<Rightarrow> panic + (bytes \<times> string \<times> bool)" where
  "GetNext_range [] i = Inr ([], [], False)"
| "GetNext_range [lastBatch] i = Inr ([], [], False)"
| "GetNext_range (batch # nextBatch # rest) i =
     (if currentBucket i = bucket batch then
        (if 0 \<le> currentNum i \<and> currentNum i < int (length (keys batch))
         then Inr (keys batch ! nat (currentNum i), bucket batch, True)
         else Inl IndexOutOfRange)
      else GetNext_range (nextBatch # rest) i)"

text \<open>
  \<^verbatim>\<open>GetNext\<close> returns its three results and the iterator as the call leaves it. The
  deferred function (\<^verbatim>\<open>currentNum++\<close>, \<^verbatim>\<open>counter++\<close>) is registered after the
  \<^verbatim>\<open>HasMore\<close> test, so it runs on every return below that test, also on the final
  \<^verbatim>\<open>return nil, "", false\<close>.
\<close>

definition GetNext :: "limitIterator \<Rightarrow> panic + ((bytes \<times> string \<times> bool) \<times> limitIterator)" where
  "GetNext i =
     (if limit i \<le> currentNum i then Inr (([], [], False), i)
      else
        case updateBucket i of
          Inl p \<Rightarrow> Inl p
        | Inr i1 \<Rightarrow>
            (case HasMore i1 of
               Inl p \<Rightarrow> Inl p
             | Inr hasMore \<Rightarrow>
                 if \<not> hasMore then Inr (([], [], False), i1)
                 else
                   (case GetNext_range (batches i1) i1 of
                      Inl p \<Rightarrow> Inl p
                    | Inr r \<Rightarrow>
                        Inr (r, i1\<lparr>currentNum := currentNum i1 + 1,
                                   counter := counter i1 + 1\<rparr>))))"

subsection \<open>The store\<close>

text \<open>
  Modelled from the spec: the store (\<^verbatim>\<open>ethdb.Database\<close> and its write batch) is
  declared outside the source at hand. Section 6 of the specification gives its contract:
  \<^verbatim>\<open>newBatch\<close>, a batch with \<^verbatim>\<open>delete(bucket, key)\<close> and an atomic \<^verbatim>\<open>commit\<close>
  that may fail, and \<^verbatim>\<open>walk\<close>, an ascending scan of a bucket that stops early when
  the visitor returns \<^verbatim>\<open>continue = false\<close>. The model is an in-memory store:
  \<^item> \<open>rows\<close>: the content of each bucket in ascending key order; a row is a key and
    a value, or the error that reading it gives;
  \<^item> \<open>deleteErr\<close> and \<open>commitErr\<close>: which calls of \<^verbatim>\<open>batch.Delete\<close> and
    \<^verbatim>\<open>batch.Commit\<close> fail, and with which error;
  \<^item> \<open>committed\<close>: the write batches committed so far, oldest first.
\<close>

type_synonym mutation = "string \<times> bytes"

record Database =
  rows :: "string \<Rightarrow> (error + bytes \<times> bytes) list"
  deleteErr :: "string \<Rightarrow> bytes \<Rightarrow> error option"
  commitErr :: "mutation list \<Rightarrow> error option"
  committed :: "mutation list list"

definition NewBatch :: "Database \<Rightarrow> mutation list" where
  "NewBatch d = []"

definition batch_Delete ::
  "Database \<Rightarrow> mutation list \<Rightarrow> string \<Rightarrow> bytes \<Rightarrow> mutation list \<times> error option" where
  "batch_Delete d b bucketKey key =
     (case deleteErr d bucketKey key of
        Some err \<Rightarrow> (b, Some err)
      | None \<Rightarrow> (b @ [(bucketKey, key)], None))"

definition survives :: "mutation list \<Rightarrow> string \<Rightarrow> error + bytes \<times> bytes \<Rightarrow> bool" where
  "survives b bucketKey r = (case r of Inl e \<Rightarrow> True | Inr (key, v) \<Rightarrow> (bucketKey, key) \<notin> set b)"

definition batch_Commit :: "Database \<Rightarrow> mutation list \<Rightarrow> Database \<times> error option" where
  "batch_Commit d b =
     (case commitErr d b of
        Some err \<Rightarrow> (d, Some err)
      | None \<Rightarrow>
          (d\<lparr>rows := (\<lambda>bucketKey. filter (survives b bucketKey) (rows d bucketKey)),
             committed := committed d @ [b]\<rparr>, None))"

text \<open>
  Modelled from the spec: \<^verbatim>\<open>Database.Walk\<close>, declared outside the source at hand, as
  the \<^verbatim>\<open>walk\<close> of section 6: the rows of the bucket are handed to the visitor in
  ascending order from the first key (\<^verbatim>\<open>Prune\<close> passes the start key \<^verbatim>\<open>[]byte{}\<close>
  and 0 fixed bits) until the visitor returns \<^verbatim>\<open>continue = false\<close> or an error, or a
  row cannot be read. The walker threads the state its closure mutates. The results are
  the error, the rows handed to the walker in order (a ghost result, to state which
  entries a scan visits), and the state.
\<close>

type_synonym 's walker = "bytes \<Rightarrow> bytes \<Rightarrow> 's \<Rightarrow> (bool \<times> error option) \<times> 's"

fun Walk_rows ::
  "(error + bytes \<times> bytes) list \<Rightarrow> 's walker \<Rightarrow> 's \<Rightarrow> error option \<times> (bytes \<times> bytes) list \<times> 's" where
  "Walk_rows [] walker s = (None, [], s)"
| "Walk_rows (Inl err # rs) walker s = (Some err, [], s)"
| "Walk_rows (Inr (key, v) # rs) walker s =
     (case walker key v s of
        ((continue, Some err), s') \<Rightarrow> (Some err, [(key, v)], s')
      | ((continue, None), s') \<Rightarrow>
          if continue then
            (case Walk_rows rs walker s' of (e, visited, s'') \<Rightarrow> (e, (key, v) # visited, s''))
          else (None, [(key, v)], s'))"

definition Walk ::
  "Database \<Rightarrow> string \<Rightarrow> 's walker \<Rightarrow> 's \<Rightarrow> error option \<times> (bytes \<times> bytes) list \<times> 's" where
  "Walk d bucketKey walker s = Walk_rows (rows d bucketKey) walker s"

subsection \<open>The bounded batch deleter\<close>

definition DeleteLimit :: int where
  "DeleteLimit = 70000"

text \<open>
  The inner loop of \<^verbatim>\<open>batchDelete\<close>: \<^verbatim>\<open>GetNext\<close> until \<^verbatim>\<open>ok = false\<close>, one
  \<^verbatim>\<open>batch.Delete\<close> per key, a warning logged for a delete that fails.
\<close>

partial_function (option) deleteRound ::
  "Database \<Rightarrow> limitIterator \<Rightarrow> mutation list \<Rightarrow> logEntry list \<Rightarrow>
     (panic + limitIterator \<times> mutation list \<times> logEntry list) option" where
  "deleteRound d iterator b lg =
     (case GetNext iterator of
        Inl p \<Rightarrow> Some (Inl p)
      | Inr ((key, bucketKey, ok), iterator') \<Rightarrow>
          if \<not> ok then Some (Inr (iterator', b, lg))
          else
            (case batch_Delete d b bucketKey key of
               (b', Some err) \<Rightarrow>
                 deleteRound d iterator' b' (lg @ [LogWarn ''Unable to remove'' bucketKey key err])
             | (b', None) \<Rightarrow> deleteRound d iterator' b' lg))"

text \<open>The outer loop: one round and one commit while \<^verbatim>\<open>HasMore\<close> holds.\<close>

partial_function (option) batchDelete_loop ::
  "Database \<Rightarrow> limitIterator \<Rightarrow> logEntry list \<Rightarrow>
     (panic + error option \<times> Database \<times> logEntry list) option" where
  "batchDelete_loop d iterator lg =
     (case HasMore iterator of
        Inl p \<Rightarrow> Some (Inl p)
      | Inr hasMore \<Rightarrow>
          if \<not> hasMore then Some (Inr (None, d, lg))
          else
            (case deleteRound d (ResetLimit iterator) (NewBatch d) lg of
               None \<Rightarrow> None
             | Some (Inl p) \<Rightarrow> Some (Inl p)
             | Some (Inr (iterator', b, lg')) \<Rightarrow>
                 (case batch_Commit d b of
                    (d', Some err) \<Rightarrow> Some (Inr (Some err, d', lg'))
                  | (d', None) \<Rightarrow> batchDelete_loop d' iterator' lg')))"

definition batchDelete ::
  "dbutils \<Rightarrow> Database \<Rightarrow> keysToRemove \<Rightarrow> logEntry list \<Rightarrow>
     (panic + error option \<times> Database \<times> logEntry list) option" where
  "batchDelete dbu d ks lg = batchDelete_loop d (LimitIterator dbu ks DeleteLimit) lg"

subsection \<open>Collecting the keys and pruning\<close>

text \<open>
  \<^verbatim>\<open>changeset.Mapper[bucket].Decode\<close> is declared outside the source at hand: the
  decoder of each bucket is a parameter, with the three results the specification gives
  it (timestamp, subject key, error). \<^verbatim>\<open>common.CopyBytes\<close> copies a slice.
\<close>

type_synonym Decode = "bytes \<Rightarrow> bytes \<Rightarrow> uint64 \<times> bytes \<times> error option"

definition CopyBytes :: "bytes \<Rightarrow> bytes" where
  "CopyBytes b = b"

text \<open>The two closures that \<^verbatim>\<open>Prune\<close> hands to \<^verbatim>\<open>Walk\<close>.\<close>

definition accountWalker ::
  "dbutils \<Rightarrow> Decode \<Rightarrow> uint64 \<Rightarrow> uint64 \<Rightarrow> keysToRemove walker" where
  "accountWalker dbu dec blockNumFrom blockNumTo key v ks =
     (case dec key v of
        (timestamp, parsedK, _) \<Rightarrow>
          if timestamp < blockNumFrom then ((True, None), ks)
          else if timestamp > blockNumTo then ((False, None), ks)
          else
            let ks1 = ks\<lparr>AccountChangeSet := AccountChangeSet ks @ [CopyBytes key]\<rparr>;
                compKey = fst (CompositeKeySuffix dbu parsedK timestamp)
            in ((True, None), ks1\<lparr>AccountHistoryKeys := AccountHistoryKeys ks1 @ [compKey]\<rparr>))"

definition storageWalker ::
  "Decode \<Rightarrow> uint64 \<Rightarrow> uint64 \<Rightarrow> keysToRemove walker" where
  "storageWalker dec blockNumFrom blockNumTo key v ks =
     (case dec key v of
        (timestamp, parsedK, _) \<Rightarrow>
          if timestamp < blockNumFrom then ((True, None), ks)
          else if timestamp > blockNumTo then ((False, None), ks)
          else ((True, None), ks\<lparr>StorageChangeSet := StorageChangeSet ks @ [CopyBytes key]\<rparr>))"

text \<open>
  The first part of \<^verbatim>\<open>Prune\<close>, up to the call of \<^verbatim>\<open>batchDelete\<close>: the two walks.
  The result is the error that ends \<^verbatim>\<open>Prune\<close> early, or the keys collected; with it
  come the rows each walk visited.
\<close>

definition Prune_collect ::
  "dbutils \<Rightarrow> (string \<Rightarrow> Decode) \<Rightarrow> Database \<Rightarrow> uint64 \<Rightarrow> uint64 \<Rightarrow>
     (error + keysToRemove) \<times> (bytes \<times> bytes) list \<times> (bytes \<times> bytes) list" where
  "Prune_collect dbu Mapper d blockNumFrom blockNumTo =
     (case Walk d (PlainAccountChangeSetBucket dbu)
             (accountWalker dbu (Mapper (PlainAccountChangeSetBucket dbu)) blockNumFrom blockNumTo)
             newKeysToRemove of
        (Some err, visitedA, ks1) \<Rightarrow> (Inl err, visitedA, [])
      | (None, visitedA, ks1) \<Rightarrow>
          (case Walk d (PlainStorageChangeSetBucket dbu)
                  (storageWalker (Mapper (PlainStorageChangeSetBucket dbu)) blockNumFrom blockNumTo)
                  ks1 of
             (Some err, visitedS, ks2) \<Rightarrow> (Inl err, visitedA, visitedS)
           | (None, visitedS, ks2) \<Rightarrow> (Inr ks2, visitedA, visitedS)))"

definition Prune ::
  "dbutils \<Rightarrow> (string \<Rightarrow> Decode) \<Rightarrow> Database \<Rightarrow> uint64 \<Rightarrow> uint64 \<Rightarrow> logEntry list \<Rightarrow>
     (panic + error option \<times> Database \<times> logEntry list) option" where
  "Prune dbu Mapper d blockNumFrom blockNumTo lg =
     (case fst (Prune_collect dbu Mapper d blockNumFrom blockNumTo) of
        Inl err \<Rightarrow> Some (Inr (Some err, d, lg))
      | Inr ks \<Rightarrow> batchDelete dbu d ks lg)"

subsection \<open>The pruner and one tick of its loop\<close>

text \<open>
  \<^verbatim>\<open>CacheConfig\<close> is declared outside the source at hand; these are the fields the
  pruner reads. \<^verbatim>\<open>PruneTimeout\<close> is a \<^verbatim>\<open>time.Duration\<close>, a signed 64-bit count of
  nanoseconds. \<^verbatim>\<open>Duration.Seconds\<close> of the Go library divides with truncation and adds
  the two parts as floating-point numbers; the model adds them as reals, which decides
  the comparison with 1 the same way (the sum is at least 1 when the whole seconds are,
  and a fraction of less than a second stays below 1 by more than a rounding step).
  The configuration is a pointer in the source and is taken to be non-nil.
\<close>

type_synonym Duration = "64 word"

record CacheConfig =
  BlocksBeforePruning :: uint64
  BlocksToPrune :: uint64
  PruneTimeout :: Duration

definition Seconds :: "Duration \<Rightarrow> real" where
  "Seconds t =
     (let sec = sint t sdiv 1000000000; nsec = sint t smod 1000000000
      in real_of_int sec + real_of_int nsec / 1000000000)"

text \<open>
  A channel of \<^verbatim>\<open>struct{}\<close> is its capacity and the number of values queued in it; a
  \<^verbatim>\<open>sync.WaitGroup\<close> is its counter. The chain is what \<^verbatim>\<open>CurrentBlock\<close> gives: the
  number of the head block, or nothing.
\<close>

record chan =
  capacity :: nat
  queued :: nat

type_synonym BlockChainer = "uint64 option"

record BasicPruner =
  wg :: nat
  stop :: chan
  db :: Database
  chain :: BlockChainer
  LastPrunedBlockNum :: uint64
  config :: CacheConfig

definition NewBasicPruner ::
  "Database \<Rightarrow> BlockChainer \<Rightarrow> CacheConfig \<Rightarrow> error + BasicPruner" where
  "NewBasicPruner database chainer cfg =
     (if BlocksToPrune cfg = 0 \<or> Seconds (PruneTimeout cfg) < 1
      then Inl (IncorrectConfig (BlocksToPrune cfg) (Seconds (PruneTimeout cfg)))
      else Inr \<lparr>wg = 0, stop = \<lparr>capacity = 1, queued = 0\<rparr>, db = database, chain = chainer,
                LastPrunedBlockNum = 0, config = cfg\<rparr>)"

text \<open>
  The branch \<^verbatim>\<open>case <-prunerRun.C\<close> of \<^verbatim>\<open>pruningLoop\<close>. The result is the pruner,
  the store and the log after the tick, and whether the loop goes on (\<^verbatim>\<open>continue\<close>, or
  the end of the branch) or has returned.
\<close>

definition pruneTick ::
  "dbutils \<Rightarrow> (string \<Rightarrow> Decode) \<Rightarrow> BasicPruner \<Rightarrow> Database \<Rightarrow> logEntry list \<Rightarrow>
     (panic + BasicPruner \<times> Database \<times> logEntry list \<times> bool) option" where
  "pruneTick dbu Mapper p d lg =
     (case chain p of
        None \<Rightarrow> Some (Inr (p, d, lg, True))
      | Some cb \<Rightarrow>
          (case calculateNumOfPrunedBlocks cb (LastPrunedBlockNum p)
                  (BlocksBeforePruning (config p)) (BlocksToPrune (config p)) of
             (from, to, ok) \<Rightarrow>
               if \<not> ok then Some (Inr (p, d, lg, True))
               else
                 (case Prune dbu Mapper d from to lg of
                    None \<Rightarrow> None
                  | Some (Inl pn) \<Rightarrow> Some (Inl pn)
                  | Some (Inr (Some err, d', lg')) \<Rightarrow>
                      Some (Inr (p, d', lg' @ [LogError ''Pruning error'' err], False))
                  | Some (Inr (None, d', lg')) \<Rightarrow>
                      Some (Inr (p\<lparr>LastPrunedBlockNum := to\<rparr>, d', lg', True)))))"

subsection \<open>Notions used in the statements\<close>

text \<open>
  The bucket names are well-formed when the five are distinct and none is the empty
  string, which \<^verbatim>\<open>updateBucket\<close> takes for "not started".
\<close>

definition bucketNames :: "dbutils \<Rightarrow> string list" where
  "bucketNames dbu =
     [AccountsHistoryBucket dbu, StorageHistoryBucket dbu, HashedStorageBucket dbu,
      PlainAccountChangeSetBucket dbu, PlainStorageChangeSetBucket dbu]"

definition wf_dbutils :: "dbutils \<Rightarrow> bool" where
  "wf_dbutils dbu \<longleftrightarrow> distinct (bucketNames dbu) \<and> [] \<notin> set (bucketNames dbu)"

definition wf_batches :: "Batch list \<Rightarrow> bool" where
  "wf_batches bs \<longleftrightarrow> distinct (map bucket bs) \<and> [] \<notin> set (map bucket bs)"

text \<open>
  The cursor stands in group \<open>b\<close> at offset \<open>n\<close>, with the groups \<open>pre\<close> before it and
  \<open>post\<close> after it; and the iterator as the first call of \<^verbatim>\<open>updateBucket\<close> starts
  it, in the first bucket at offset 0.
\<close>

definition cursor_at ::
  "limitIterator \<Rightarrow> Batch list \<Rightarrow> Batch \<Rightarrow> Batch list \<Rightarrow> nat \<Rightarrow> bool" where
  "cursor_at i pre b post n \<longleftrightarrow>
     batches i = pre @ b # post \<and> wf_batches (batches i) \<and>
     currentBucket i = bucket b \<and> currentNum i = int n"

definition started :: "dbutils \<Rightarrow> keysToRemove \<Rightarrow> int \<Rightarrow> limitIterator" where
  "started dbu ks lmt = (LimitIterator dbu ks lmt)\<lparr>currentBucket := AccountsHistoryBucket dbu\<rparr>"

text \<open>
  What a round does to its batch and to the log when it is handed the keys \<open>ms\<close> one
  after the other: the body of the inner loop of \<^verbatim>\<open>batchDelete\<close>, without the cursor.
  Of these keys, those whose delete succeeds and the warnings logged for the others.
\<close>

fun deleteAll ::
  "Database \<Rightarrow> mutation list \<Rightarrow> logEntry list \<Rightarrow> mutation list \<Rightarrow>
     mutation list \<times> logEntry list" where
  "deleteAll d b lg [] = (b, lg)"
| "deleteAll d b lg ((bucketKey, key) # ms) =
     (case batch_Delete d b bucketKey key of
        (b', Some err) \<Rightarrow>
          deleteAll d b' (lg @ [LogWarn ''Unable to remove'' bucketKey key err]) ms
      | (b', None) \<Rightarrow> deleteAll d b' lg ms)"



text \<open>
  The mutations of one group, those of the four groups before the last in traversal
  order, and the batch the first round makes of them.
\<close>

definition group_mutations :: "Batch \<Rightarrow> mutation list" where
  "group_mutations b = map (Pair (bucket b)) (keys b)"

definition first_four :: "dbutils \<Rightarrow> keysToRemove \<Rightarrow> mutation list" where
  "first_four dbu ks =
     map (Pair (AccountsHistoryBucket dbu)) (AccountHistoryKeys ks) @
     map (Pair (StorageHistoryBucket dbu)) (StorageHistoryKeys ks) @
     map (Pair (HashedStorageBucket dbu)) (StorageKeys ks) @
     map (Pair (PlainAccountChangeSetBucket dbu)) (AccountChangeSet ks)"

definition first_batch :: "dbutils \<Rightarrow> Database \<Rightarrow> keysToRemove \<Rightarrow> logEntry list \<Rightarrow> mutation list" where
  "first_batch dbu d ks lg = fst (deleteAll d (NewBatch d) lg (first_four dbu ks))"

text \<open>
  The timestamp and the subject key the decoder gives for a row, the history-index key
  derived from them, the rows within the window, and the rows a scan of a readable
  bucket visits: those before the first timestamp above \<open>to\<close>, and the row that has it.
\<close>

definition timestampOf :: "Decode \<Rightarrow> bytes \<times> bytes \<Rightarrow> uint64" where
  "timestampOf dec e = fst (dec (fst e) (snd e))"

definition subjectOf :: "Decode \<Rightarrow> bytes \<times> bytes \<Rightarrow> bytes" where
  "subjectOf dec e = fst (snd (dec (fst e) (snd e)))"

definition compositeOf :: "dbutils \<Rightarrow> Decode \<Rightarrow> bytes \<times> bytes \<Rightarrow> bytes" where
  "compositeOf dbu dec e = fst (CompositeKeySuffix dbu (subjectOf dec e) (timestampOf dec e))"

definition inWindow :: "Decode \<Rightarrow> uint64 \<Rightarrow> uint64 \<Rightarrow> bytes \<times> bytes \<Rightarrow> bool" where
  "inWindow dec blockNumFrom blockNumTo e \<longleftrightarrow>
     blockNumFrom \<le> timestampOf dec e \<and> timestampOf dec e \<le> blockNumTo"

definition scanned :: "Decode \<Rightarrow> uint64 \<Rightarrow> (bytes \<times> bytes) list \<Rightarrow> (bytes \<times> bytes) list" where
  "scanned dec blockNumTo es =
     takeWhile (\<lambda>e. timestampOf dec e \<le> blockNumTo) es @
     take 1 (dropWhile (\<lambda>e. timestampOf dec e \<le> blockNumTo) es)"



text \<open>
  The flag of the two callbacks of \<^verbatim>\<open>Prune\<close> on a row: the walk continues unless the
  timestamp is at least \<open>from\<close> and above \<open>to\<close>. The rows of a bucket that a walk with
  that flag visits, and the error it ends with: it stops after the first row at which
  the flag is false, and at the first row that cannot be read.
\<close>

definition passes :: "Decode \<Rightarrow> uint64 \<Rightarrow> uint64 \<Rightarrow> bytes \<times> bytes \<Rightarrow> bool" where
  "passes dec blockNumFrom blockNumTo e \<longleftrightarrow>
     timestampOf dec e < blockNumFrom \<or> timestampOf dec e \<le> blockNumTo"

fun visited_rows :: "(bytes \<times> bytes \<Rightarrow> bool) \<Rightarrow> (error + bytes \<times> bytes) list \<Rightarrow> (bytes \<times> bytes) list" where
  "visited_rows c [] = []"
| "visited_rows c (Inl err # rs) = []"
| "visited_rows c (Inr e # rs) = e # (if c e then visited_rows c rs else [])"

fun walk_error :: "(bytes \<times> bytes \<Rightarrow> bool) \<Rightarrow> (error + bytes \<times> bytes) list \<Rightarrow> error option" where
  "walk_error c [] = None"
| "walk_error c (Inl err # rs) = Some err"
| "walk_error c (Inr e # rs) = (if c e then walk_error c rs else None)"

text \<open>A family of decoders with the error result dropped.\<close>

definition dropDecodeError :: "(string \<Rightarrow> Decode) \<Rightarrow> string \<Rightarrow> Decode" where
  "dropDecodeError Mapper bucketKey key v =
     (fst (Mapper bucketKey key v), fst (snd (Mapper bucketKey key v)), None)"

subsection \<open>Concrete inputs\<close>

text \<open>
  Inputs at which the statements below are evaluated: five distinct bucket names, a
  composite key that appends the eight bytes of the timestamp, a decoder that reads a
  big-endian timestamp from the key and takes the value as the subject key, a decoder
  that reports an error with every result, and stores in which no call fails, in which
  every commit fails, and which holds five keys of which the delete of \<open>[3]\<close> fails.
\<close>

definition encodeTimestamp :: "uint64 \<Rightarrow> bytes" where
  "encodeTimestamp timestamp = map (\<lambda>n. ucast (drop_bit (8 * n) timestamp)) [7, 6, 5, 4, 3, 2, 1, 0]"

definition decodeTimestamp :: "bytes \<Rightarrow> uint64" where
  "decodeTimestamp key = foldl (\<lambda>a b. 256 * a + ucast b) 0 key"

definition exampleNames :: dbutils where
  "exampleNames =
     \<lparr>AccountsHistoryBucket = ''hAT'', StorageHistoryBucket = ''hST'',
      HashedStorageBucket = ''HST'', PlainAccountChangeSetBucket = ''PLAIN-ACS'',
      PlainStorageChangeSetBucket = ''PLAIN-SCS'',
      CompositeKeySuffix = (\<lambda>key timestamp. (key @ encodeTimestamp timestamp, encodeTimestamp timestamp))\<rparr>"

definition exampleDecode :: Decode where
  "exampleDecode key v = (decodeTimestamp key, v, None)"

definition exampleMapper :: "string \<Rightarrow> Decode" where
  "exampleMapper bucketKey = exampleDecode"

definition failingDecode :: Decode where
  "failingDecode key v = (decodeTimestamp key, v, Some (StoreError ''decode failed''))"

definition failingMapper :: "string \<Rightarrow> Decode" where
  "failingMapper bucketKey = failingDecode"

definition emptyStore :: Database where
  "emptyStore =
     \<lparr>rows = (\<lambda>bucketKey. []), deleteErr = (\<lambda>bucketKey key. None),
      commitErr = (\<lambda>b. None), committed = []\<rparr>"



text \<open>
  Keys to remove: two keys in the first group and 69999 in the fourth; one key in the
  first group and two in the last, with a store that holds them; five keys in the first
  group.
\<close>

definition bigKeys :: keysToRemove where
  "bigKeys = newKeysToRemove\<lparr>AccountHistoryKeys := [[1], [2]], AccountChangeSet := replicate 69999 [3]\<rparr>"

definition lastGroupKeys :: keysToRemove where
  "lastGroupKeys = newKeysToRemove\<lparr>AccountHistoryKeys := [[1]], StorageChangeSet := [[2], [3]]\<rparr>"

definition lastGroupStore :: Database where
  "lastGroupStore =
     emptyStore\<lparr>rows := (\<lambda>bucketKey.
        if bucketKey = ''hAT'' then [Inr ([1], [])]
        else if bucketKey = ''PLAIN-SCS'' then [Inr ([2], []), Inr ([3], [])]
        else [])\<rparr>"


text \<open>
  The scenario of the specification: an account change-set bucket with the timestamps
  5000, 10100, 10101 and 50000, a storage change-set bucket with 7000 and 20000, the
  head at block 100100, retention 90000 and batches of 70000 blocks; the keys \<^verbatim>\<open>Prune\<close>
  collects there for the window from 0 to 10100. The same scenario over a store whose
  commits fail, and a store whose second row cannot be read.
\<close>

definition scenarioEntries :: "(bytes \<times> bytes) list" where
  "scenarioEntries = [([19, 136], [1]), ([39, 116], [2]), ([39, 117], [3]), ([195, 80], [4])]"

definition scenarioStore :: Database where
  "scenarioStore =
     emptyStore\<lparr>rows := (\<lambda>bucketKey.
        if bucketKey = ''PLAIN-ACS'' then map Inr scenarioEntries
        else if bucketKey = ''PLAIN-SCS'' then [Inr ([27, 88], [5]), Inr ([78, 32], [6])]
        else [])\<rparr>"

definition scenarioPruner :: BasicPruner where
  "scenarioPruner =
     \<lparr>wg = 1, stop = \<lparr>capacity = 1, queued = 0\<rparr>, db = scenarioStore, chain = Some 100100,
      LastPrunedBlockNum = 0,
      config = \<lparr>BlocksBeforePruning = 90000, BlocksToPrune = 70000, PruneTimeout = 1000000000\<rparr>\<rparr>"



definition brokenStore :: Database where
  "brokenStore =
     emptyStore\<lparr>rows := (\<lambda>bucketKey.
        if bucketKey = ''PLAIN-ACS''
        then [Inr ([19, 136], [1]), Inl (StoreError ''read failed''), Inr ([39, 116], [2])]
        else [])\<rparr>"

declare deleteRound.simps [code] batchDelete_loop.simps [code]

section \<open>Properties\<close>

subsection \<open>The range calculator\<close>

text \<open>
  C6. When \<open>currentBlock \<le> lastPrunedBlock\<close> the result is not eligible, with
  \<open>from = to = lastPrunedBlock\<close>, and no subtraction is made. Otherwise the first
  subtraction is exact (the word difference is the integer difference), the result is not
  eligible when that difference is at most \<open>blocksBeforePruning\<close>, and beyond it the
  second subtraction is exact too.
\<close>

theorem calculateNumOfPrunedBlocks_not_eligible:
  "(cb \<le> lp \<longrightarrow> calculateNumOfPrunedBlocks cb lp bbp bb = (lp, lp, False)) \<and>
   (lp < cb \<longrightarrow>
      uint (cb - lp) = uint cb - uint lp \<and>
      (cb - lp \<le> bbp \<longrightarrow> calculateNumOfPrunedBlocks cb lp bbp bb = (lp, lp, False)) \<and>
      (bbp < cb - lp \<longrightarrow> uint (cb - lp - bbp) = uint cb - uint lp - uint bbp))"
proof -
  have 1: "cb \<le> lp \<Longrightarrow> calculateNumOfPrunedBlocks cb lp bbp bb = (lp, lp, False)"
    by (simp add: calculateNumOfPrunedBlocks_def)
  have 2: "lp < cb \<Longrightarrow> uint (cb - lp) = uint cb - uint lp"
    by uint_arith
  have 3: "lp < cb \<Longrightarrow> cb - lp \<le> bbp \<Longrightarrow>
      calculateNumOfPrunedBlocks cb lp bbp bb = (lp, lp, False)"
    by (simp add: calculateNumOfPrunedBlocks_def Let_def)
  have 4: "lp < cb \<Longrightarrow> bbp < cb - lp \<Longrightarrow>
      uint (cb - lp - bbp) = uint cb - uint lp - uint bbp"
    by uint_arith
  from 1 2 3 4 show ?thesis by blast
qed

theorem calculateNumOfPrunedBlocks_not_eligible_witness:
  "calculateNumOfPrunedBlocks 5 10 3 7 = (10, 10, False) \<and>
   calculateNumOfPrunedBlocks 10 10 0 7 = (10, 10, False) \<and>
   uint (10 - 5 :: uint64) = uint (10 :: uint64) - uint (5 :: uint64) \<and>
   calculateNumOfPrunedBlocks 10 5 8 7 = (5, 5, False) \<and>
   uint (10 - 5 - 2 :: uint64) = uint (10 :: uint64) - uint (5 :: uint64) - uint (2 :: uint64)"
  using calculateNumOfPrunedBlocks_not_eligible [of 5 10 3 7]
    calculateNumOfPrunedBlocks_not_eligible [of 10 10 0 7]
    calculateNumOfPrunedBlocks_not_eligible [of 10 5 8 7]
    calculateNumOfPrunedBlocks_not_eligible [of 10 5 2 7]
  by simp

text \<open>
  C7. For an eligible input (\<open>lastPrunedBlock < currentBlock\<close> and the difference above
  \<open>blocksBeforePruning\<close>) the result is \<open>from = lastPrunedBlock\<close> and
  \<open>to = lastPrunedBlock + min (currentBlock - lastPrunedBlock - blocksBeforePruning)
  blocksBatch\<close>, the addition does not wrap, so \<open>from \<le> to\<close> and
  \<open>to - from \<le> blocksBatch\<close>; and a tick of the loop, which assigns \<open>to\<close> to
  \<open>LastPrunedBlockNum\<close>, never decreases it.
\<close>

theorem calculateNumOfPrunedBlocks_eligible:
  assumes "lp < cb" and "bbp < cb - lp"
  shows "calculateNumOfPrunedBlocks cb lp bbp bb = (lp, lp + min (cb - lp - bbp) bb, True) \<and>
         uint (lp + min (cb - lp - bbp) bb) = uint lp + min (uint cb - uint lp - uint bbp) (uint bb) \<and>
         lp \<le> lp + min (cb - lp - bbp) bb \<and>
         (lp + min (cb - lp - bbp) bb) - lp \<le> bb \<and>
         (\<forall>p p' d d' lg lg' run dbu Mapper.
            chain p = Some cb \<and> LastPrunedBlockNum p = lp \<and>
            BlocksBeforePruning (config p) = bbp \<and> BlocksToPrune (config p) = bb \<and>
            pruneTick dbu Mapper p d lg = Some (Inr (p', d', lg', run)) \<longrightarrow>
            LastPrunedBlockNum p' = lp \<or> LastPrunedBlockNum p' = lp + min (cb - lp - bbp) bb)"
proof -
  have 1: "calculateNumOfPrunedBlocks cb lp bbp bb = (lp, lp + min (cb - lp - bbp) bb, True)"
    using assms unfolding calculateNumOfPrunedBlocks_def Let_def
    by (auto simp: min_def not_le)
  have 2: "uint (lp + min (cb - lp - bbp) bb) =
           uint lp + min (uint cb - uint lp - uint bbp) (uint bb)"
    using assms unfolding min_def by uint_arith
  have 3: "lp \<le> lp + min (cb - lp - bbp) bb"
    using assms unfolding min_def by uint_arith
  have 4: "(lp + min (cb - lp - bbp) bb) - lp \<le> bb"
    by simp
  have 5: "LastPrunedBlockNum p' = lp \<or> LastPrunedBlockNum p' = lp + min (cb - lp - bbp) bb"
    if "chain p = Some cb" "LastPrunedBlockNum p = lp" "BlocksBeforePruning (config p) = bbp"
      "BlocksToPrune (config p) = bb" "pruneTick dbu Mapper p d lg = Some (Inr (p', d', lg', run))"
    for p p' d d' lg lg' run dbu Mapper
    using that 1
    by (auto simp: pruneTick_def split: option.splits sum.splits prod.splits)
  from 1 2 3 4 5 show ?thesis by blast
qed

theorem calculateNumOfPrunedBlocks_eligible_witness:
  "calculateNumOfPrunedBlocks 100100 0 90000 70000 = (0, 10100, True)"
proof -
  have a: "(0 :: uint64) < 100100" by simp
  have b: "(90000 :: uint64) < 100100 - 0" by simp
  from calculateNumOfPrunedBlocks_eligible [OF a b, of 70000] show ?thesis by simp
qed

subsection \<open>The cursor\<close>

text \<open>
  With distinct bucket names the two loops over \<open>batches\<close> pass the groups before the
  current one without effect, and \<^verbatim>\<open>updateBucket\<close> leaves a cursor alone that stands
  before the end of its group.
\<close>

lemma updateBucket_range_skip:
  "currentBucket i \<notin> bucket ` set pre \<Longrightarrow> xs \<noteq> [] \<Longrightarrow>
   updateBucket_range (pre @ xs) i = updateBucket_range xs i"
proof (induction pre)
  case Nil
  then show ?case by simp
next
  case (Cons p pre)
  then obtain y ys where "pre @ xs = y # ys" by (cases "pre @ xs") auto
  with Cons show ?case by simp
qed

lemma updateBucket_range_nomatch:
  "currentBucket i \<notin> bucket ` set (butlast xs) \<Longrightarrow> updateBucket_range xs i = i"
  by (induction xs i rule: updateBucket_range.induct) auto

lemma GetNext_range_skip:
  "currentBucket i \<notin> bucket ` set pre \<Longrightarrow> xs \<noteq> [] \<Longrightarrow>
   GetNext_range (pre @ xs) i = GetNext_range xs i"
proof (induction pre)
  case Nil
  then show ?case by simp
next
  case (Cons p pre)
  then obtain y ys where "pre @ xs = y # ys" by (cases "pre @ xs") auto
  with Cons show ?case by simp
qed

lemma at_notin_pre: "cursor_at i pre b post n \<Longrightarrow> currentBucket i \<notin> bucket ` set pre"
  by (auto simp: cursor_at_def wf_batches_def)

lemma at_notin_post: "cursor_at i pre b post n \<Longrightarrow> currentBucket i \<notin> bucket ` set post"
  by (auto simp: cursor_at_def wf_batches_def)

lemma at_nonempty: "cursor_at i pre b post n \<Longrightarrow> currentBucket i \<noteq> []"
  by (auto simp: cursor_at_def wf_batches_def)

text \<open>
  \<^verbatim>\<open>HasMore\<close> is false exactly at the end of the last group. Inside a group that is
  not the last, and below the limit, \<^verbatim>\<open>GetNext\<close> returns the key under the cursor
  and moves on by one.
\<close>

lemma HasMore_at:
  "cursor_at i pre b post n \<Longrightarrow>
   HasMore i = Inr (\<not> (post = [] \<and> length (keys b) = n))"
proof -
  assume a: "cursor_at i pre b post n"
  then have bs: "batches i = pre @ b # post" by (simp add: cursor_at_def)
  then have l: "batches i ! (length (batches i) - 1) = last (b # post)"
    by (metis append_is_Nil_conv last_appendR last_conv_nth list.distinct(1))
  show ?thesis
  proof (cases "post = []")
    case True
    with a l bs show ?thesis by (auto simp: HasMore_def cursor_at_def)
  next
    case False
    then have "last (b # post) \<in> set post" by simp
    with a have "bucket (last (b # post)) \<noteq> currentBucket i"
      using at_notin_post by (metis imageI)
    with False l bs show ?thesis by (auto simp: HasMore_def)
  qed
qed

lemma GetNext_at_inside:
  assumes a: "cursor_at i pre b post n" and p: "post \<noteq> []" and n: "n < length (keys b)" and l: "int n < limit i"
  shows "GetNext i = Inr ((keys b ! n, bucket b, True), i\<lparr>currentNum := int n + 1, counter := counter i + 1\<rparr>)"
proof -
  from a have bs: "batches i = pre @ b # post" and cb: "currentBucket i = bucket b" and cn: "currentNum i = int n"
    by (simp_all add: cursor_at_def)
  obtain b2 rest where post: "post = b2 # rest" using p by (cases post) auto
  have u1: "updateBucket_range (batches i) i = updateBucket_range (b # post) i"
    unfolding bs using a by (intro updateBucket_range_skip at_notin_pre) auto
  have "currentBucket i \<notin> bucket ` set (butlast (b2 # rest))"
    using at_notin_post[OF a] post by (auto dest: in_set_butlastD)
  then have u2: "updateBucket_range (b # post) i = i"
    using n cn cb post by (simp add: updateBucket_range_nomatch)
  have u: "updateBucket i = Inr i"
    using at_nonempty[OF a] u1 u2 by (simp add: updateBucket_def)
  have h: "HasMore i = Inr True" using HasMore_at[OF a] p by simp
  have g1: "GetNext_range (batches i) i = GetNext_range (b # post) i"
    unfolding bs using a by (intro GetNext_range_skip at_notin_pre) auto
  have g: "GetNext_range (batches i) i = Inr (keys b ! n, bucket b, True)"
    using g1 post cb cn n by simp
  show ?thesis using l cn u h g by (simp add: GetNext_def)
qed

text \<open>
  A round that starts inside a group which is not the last hands the next \<open>m\<close> keys of
  the group to \<^verbatim>\<open>batch.Delete\<close>, as long as the offset stays within the limit.
\<close>

lemma deleteAll_append:
  "deleteAll d b lg (xs @ ys) = deleteAll d (fst (deleteAll d b lg xs)) (snd (deleteAll d b lg xs)) ys"
  by (induction d b lg xs rule: deleteAll.induct) (auto split: prod.splits option.splits)

lemma cursor_at_step:
  "cursor_at i pre b post n \<Longrightarrow> cursor_at (i\<lparr>currentNum := int m, counter := c\<rparr>) pre b post m"
  by (clarsimp simp: cursor_at_def)

lemma deleteRound_within_group:
  assumes "cursor_at i pre b post n" and "post \<noteq> []" and "n + m \<le> length (keys b)"
    and "int (n + m) \<le> limit i"
  shows "\<exists>c. deleteRound d i bt lg =
           deleteRound d (i\<lparr>currentNum := int (n + m), counter := c\<rparr>)
             (fst (deleteAll d bt lg (map (Pair (bucket b)) (take m (drop n (keys b))))))
             (snd (deleteAll d bt lg (map (Pair (bucket b)) (take m (drop n (keys b))))))"
  using assms
proof (induction m arbitrary: i n bt lg)
  case 0
  then have "i\<lparr>currentNum := int (n + 0), counter := counter i\<rparr> = i"
    by (cases i) (simp add: cursor_at_def)
  then show ?case by (intro exI[of _ "counter i"]) (simp del: of_nat_add)
next
  case (Suc m)
  let ?i' = "i\<lparr>currentNum := int n + 1, counter := counter i + 1\<rparr>"
  let ?key = "keys b ! n"
  have n: "n < length (keys b)" and l: "int n < limit i" using Suc.prems by auto
  have g: "GetNext i = Inr ((?key, bucket b, True), ?i')"
    using GetNext_at_inside[OF Suc.prems(1,2) n l] .
  have dr: "drop n (keys b) = ?key # drop (Suc n) (keys b)"
    using n by (simp add: Cons_nth_drop_Suc)
  have at': "cursor_at ?i' pre b post (Suc n)"
    using cursor_at_step[OF Suc.prems(1), where m = "Suc n" and c = "counter i + 1"] by (simp add: add.commute)
  have lim': "limit ?i' = limit i" by simp
  obtain b1 e1 where bd: "batch_Delete d bt (bucket b) ?key = (b1, e1)" by (cases "batch_Delete d bt (bucket b) ?key")
  define lg1 where "lg1 = (case e1 of None \<Rightarrow> lg | Some err \<Rightarrow> lg @ [LogWarn ''Unable to remove'' (bucket b) ?key err])"
  have step: "deleteRound d i bt lg = deleteRound d ?i' b1 lg1"
    by (subst deleteRound.simps) (simp add: g bd lg1_def split: option.splits)
  have da: "deleteAll d bt lg (map (Pair (bucket b)) (take (Suc m) (drop n (keys b))))
        = deleteAll d b1 lg1 (map (Pair (bucket b)) (take m (drop (Suc n) (keys b))))"
    by (simp add: dr bd lg1_def split: option.splits)
  from Suc.IH[OF at' Suc.prems(2), of b1 lg1] Suc.prems(3,4) lim'
  obtain c where "deleteRound d ?i' b1 lg1 =
           deleteRound d (?i'\<lparr>currentNum := int (Suc n + m), counter := c\<rparr>)
             (fst (deleteAll d b1 lg1 (map (Pair (bucket b)) (take m (drop (Suc n) (keys b))))))
             (snd (deleteAll d b1 lg1 (map (Pair (bucket b)) (take m (drop (Suc n) (keys b))))))"
    by auto
  with step da show ?case by (auto simp: add.commute)
qed

text \<open>
  At the end of a group of fewer than \<open>limit\<close> keys, \<^verbatim>\<open>GetNext\<close> does what it does
  at the start of the next group: \<^verbatim>\<open>updateBucket\<close> resets the offset there, and the
  limit is compared with the offset.
\<close>

lemma GetNext_advance:
  assumes a: "cursor_at i pre b (b2 # rest) (length (keys b))" and l: "int (length (keys b)) < limit i"
  shows "GetNext i = GetNext (i\<lparr>currentBucket := bucket b2, currentNum := 0\<rparr>)"
    and "cursor_at (i\<lparr>currentBucket := bucket b2, currentNum := 0\<rparr>) (pre @ [b]) b2 rest 0"
proof -
  let ?i' = "i\<lparr>currentBucket := bucket b2, currentNum := 0\<rparr>"
  from a have bs: "batches i = pre @ b # b2 # rest" and cb: "currentBucket i = bucket b"
    and cn: "currentNum i = int (length (keys b))"
    by (simp_all add: cursor_at_def)
  show at': "cursor_at ?i' (pre @ [b]) b2 rest 0"
    using a by (clarsimp simp: cursor_at_def)
  have u1: "updateBucket_range (batches i) i = updateBucket_range (b # b2 # rest) i"
    unfolding bs using a by (intro updateBucket_range_skip at_notin_pre) auto
  have u2: "updateBucket_range (b # b2 # rest) i = updateBucket_range (b2 # rest) ?i'"
    using cb cn by simp
  have "updateBucket_range ((pre @ [b]) @ b2 # rest) ?i' = updateBucket_range (b2 # rest) ?i'"
    using at' by (intro updateBucket_range_skip at_notin_pre) auto
  then have u3: "updateBucket_range (batches ?i') ?i' = updateBucket_range (b2 # rest) ?i'"
    using bs by simp
  have u: "updateBucket i = updateBucket ?i'"
    using at_nonempty[OF a] at_nonempty[OF at'] u1 u2 u3 by (simp add: updateBucket_def)
  have "\<not> limit i \<le> currentNum i" "\<not> limit ?i' \<le> currentNum ?i'" using l cn by auto
  then show "GetNext i = GetNext ?i'" using u by (simp add: GetNext_def)
qed

lemma deleteRound_cong_GetNext:
  assumes "GetNext i = GetNext i'"
  shows "deleteRound d i bt lg = deleteRound d i' bt lg"
  by (subst deleteRound.simps, subst (2) deleteRound.simps) (simp add: assms)

text \<open>
  In the last group \<^verbatim>\<open>GetNext\<close> returns no key: at the end of the group it stops at
  \<^verbatim>\<open>HasMore\<close>, before it the loop over \<open>batches\<close> ends at the last index and the
  deferred increments run.
\<close>

lemma GetNext_at_last:
  assumes a: "cursor_at i pre b [] n" and l: "int n < limit i"
  shows "GetNext i =
     (if length (keys b) = n then Inr (([], [], False), i)
      else Inr (([], [], False), i\<lparr>currentNum := int n + 1, counter := counter i + 1\<rparr>))"
proof -
  from a have bs: "batches i = pre @ [b]" and cb: "currentBucket i = bucket b"
    and cn: "currentNum i = int n"
    by (simp_all add: cursor_at_def)
  have "updateBucket_range (batches i) i = updateBucket_range [b] i"
    unfolding bs using a by (intro updateBucket_range_skip at_notin_pre) auto
  then have u: "updateBucket i = Inr i"
    using at_nonempty[OF a] by (simp add: updateBucket_def)
  have h: "HasMore i = Inr (length (keys b) \<noteq> n)" using HasMore_at[OF a] by simp
  have "GetNext_range (batches i) i = GetNext_range [b] i"
    unfolding bs using a by (intro GetNext_range_skip at_notin_pre) auto
  then have g: "GetNext_range (batches i) i = Inr ([], [], False)" by simp
  show ?thesis using l cn u h g by (simp add: GetNext_def)
qed


lemma deleteRound_at_last:
  assumes "cursor_at i pre b [] n" and "int n < limit i"
  shows "deleteRound d i bt lg =
     Some (Inr (if length (keys b) = n then i
                else i\<lparr>currentNum := int n + 1, counter := counter i + 1\<rparr>, bt, lg))"
  by (subst deleteRound.simps) (simp add: GetNext_at_last[OF assms])

text \<open>
  Hence a round runs from group to group. When every group before the last holds fewer
  than \<open>limit\<close> keys the round takes all their keys and ends in the last group; when one
  of them holds at least \<open>limit\<close> keys the round ends in the first such group, with the
  offset at the limit.
\<close>

lemma deleteRound_to_group_end:
  assumes a: "cursor_at i pre b (b2 # rest) n" and n: "n \<le> length (keys b)"
    and l: "int (length (keys b)) < limit i"
  shows "\<exists>c. deleteRound d i bt lg =
           deleteRound d (i\<lparr>currentBucket := bucket b2, currentNum := 0, counter := c\<rparr>)
             (fst (deleteAll d bt lg (map (Pair (bucket b)) (drop n (keys b)))))
             (snd (deleteAll d bt lg (map (Pair (bucket b)) (drop n (keys b)))))
         \<and> cursor_at (i\<lparr>currentBucket := bucket b2, currentNum := 0, counter := c\<rparr>) (pre @ [b]) b2 rest 0"
proof -
  let ?m = "length (keys b) - n"
  have nm: "n + ?m = length (keys b)" using n by simp
  from deleteRound_within_group[OF a, of ?m d bt lg] n l
  obtain c where r1: "deleteRound d i bt lg =
           deleteRound d (i\<lparr>currentNum := int (length (keys b)), counter := c\<rparr>)
             (fst (deleteAll d bt lg (map (Pair (bucket b)) (drop n (keys b)))))
             (snd (deleteAll d bt lg (map (Pair (bucket b)) (drop n (keys b)))))"
    by (auto simp: nm)
  let ?i1 = "i\<lparr>currentNum := int (length (keys b)), counter := c\<rparr>"
  have a1: "cursor_at ?i1 pre b (b2 # rest) (length (keys b))"
    using cursor_at_step[OF a] .
  have l1: "int (length (keys b)) < limit ?i1" using l by simp
  from GetNext_advance[OF a1 l1]
  have g: "GetNext ?i1 = GetNext (?i1\<lparr>currentBucket := bucket b2, currentNum := 0\<rparr>)"
    and a2: "cursor_at (?i1\<lparr>currentBucket := bucket b2, currentNum := 0\<rparr>) (pre @ [b]) b2 rest 0"
    by auto
  have e: "?i1\<lparr>currentBucket := bucket b2, currentNum := 0\<rparr> =
           i\<lparr>currentBucket := bucket b2, currentNum := 0, counter := c\<rparr>"
    by simp
  from deleteRound_cong_GetNext[OF g] r1 a2 show ?thesis
    unfolding e by auto
qed

lemma deleteRound_drain:
  assumes "cursor_at i pre b post n" and "post \<noteq> []" and "n \<le> length (keys b)"
    and "\<forall>x\<in>set (b # butlast post). int (length (keys x)) < limit i"
  shows "\<exists>c. deleteRound d i bt lg =
     Some (Inr (i\<lparr>currentBucket := bucket (last post),
                  currentNum := (if keys (last post) = [] then 0 else 1), counter := c\<rparr>,
                deleteAll d bt lg
                  (map (Pair (bucket b)) (drop n (keys b)) @ concat (map group_mutations (butlast post)))))"
  using assms
proof (induction post arbitrary: i pre b n bt lg)
  case Nil
  then show ?case by simp
next
  case (Cons b2 rest)
  let ?A = "map (Pair (bucket b)) (drop n (keys b))"
  let ?bt1 = "fst (deleteAll d bt lg ?A)" and ?lg1 = "snd (deleteAll d bt lg ?A)"
  have l: "int (length (keys b)) < limit i" using Cons.prems(4) by simp
  from deleteRound_to_group_end[OF Cons.prems(1) Cons.prems(3) l, of d bt lg]
  obtain c where r: "deleteRound d i bt lg =
      deleteRound d (i\<lparr>currentBucket := bucket b2, currentNum := 0, counter := c\<rparr>) ?bt1 ?lg1"
    and a2: "cursor_at (i\<lparr>currentBucket := bucket b2, currentNum := 0, counter := c\<rparr>) (pre @ [b]) b2 rest 0"
    by auto
  let ?i2 = "i\<lparr>currentBucket := bucket b2, currentNum := 0, counter := c\<rparr>"
  have l0: "int 0 < limit ?i2" using l by simp
  show ?case
  proof (cases "rest = []")
    case True
    with a2 have a3: "cursor_at ?i2 (pre @ [b]) b2 [] 0" by simp
    have "deleteRound d ?i2 ?bt1 ?lg1 =
       Some (Inr (if length (keys b2) = 0 then ?i2
                else ?i2\<lparr>currentNum := int 0 + 1, counter := counter ?i2 + 1\<rparr>, ?bt1, ?lg1))"
      using deleteRound_at_last[OF a3 l0] .
    with r True show ?thesis
      by (cases "keys b2 = []") (auto simp: deleteAll_append)
  next
    case False
    have p4: "\<forall>x\<in>set (b2 # butlast rest). int (length (keys x)) < limit ?i2"
      using Cons.prems(4) False by simp
    from Cons.IH[OF a2 False _ p4, of ?bt1 ?lg1]
    obtain c' where "deleteRound d ?i2 ?bt1 ?lg1 =
       Some (Inr (?i2\<lparr>currentBucket := bucket (last rest),
                  currentNum := (if keys (last rest) = [] then 0 else 1), counter := c'\<rparr>,
                deleteAll d ?bt1 ?lg1
                  (map (Pair (bucket b2)) (drop 0 (keys b2)) @ concat (map group_mutations (butlast rest)))))"
      by auto
    with r False show ?thesis
      by (intro exI[of _ c']) (simp add: deleteAll_append group_mutations_def[symmetric])
  qed
qed






subsection \<open>Termination of the deleter\<close>

text \<open>The iterator that \<^verbatim>\<open>batchDelete\<close> builds, and its first round.\<close>

lemma wf_batches_LimitIterator:
  "wf_dbutils dbu \<Longrightarrow> wf_batches (batches (LimitIterator dbu ks lmt))"
  by (simp add: wf_dbutils_def wf_batches_def bucketNames_def LimitIterator_def)

lemma HasMore_LimitIterator:
  "wf_dbutils dbu \<Longrightarrow> HasMore (LimitIterator dbu ks lmt) = Inr True"
  by (auto simp: wf_dbutils_def bucketNames_def LimitIterator_def HasMore_def)

lemma updateBucket_LimitIterator:
  "wf_dbutils dbu \<Longrightarrow>
   updateBucket (ResetLimit (LimitIterator dbu ks lmt)) = updateBucket (started dbu ks lmt)"
  by (simp add: updateBucket_def started_def ResetLimit_def LimitIterator_def wf_dbutils_def bucketNames_def
        del: updateBucket_range.simps)

lemma GetNext_LimitIterator:
  assumes "wf_dbutils dbu" and "0 < lmt"
  shows "GetNext (ResetLimit (LimitIterator dbu ks lmt)) = GetNext (started dbu ks lmt)"
proof -
  have "\<not> limit (ResetLimit (LimitIterator dbu ks lmt)) \<le> currentNum (ResetLimit (LimitIterator dbu ks lmt))"
    "\<not> limit (started dbu ks lmt) \<le> currentNum (started dbu ks lmt)"
    using assms(2) by (simp_all add: started_def ResetLimit_def LimitIterator_def)
  then show ?thesis
    unfolding GetNext_def updateBucket_LimitIterator[OF assms(1)] by simp
qed

lemma cursor_at_started:
  "wf_dbutils dbu \<Longrightarrow>
   cursor_at (started dbu ks lmt) []
     \<lparr>bucket = AccountsHistoryBucket dbu, keys = AccountHistoryKeys ks\<rparr>
     [\<lparr>bucket = StorageHistoryBucket dbu, keys = StorageHistoryKeys ks\<rparr>,
      \<lparr>bucket = HashedStorageBucket dbu, keys = StorageKeys ks\<rparr>,
      \<lparr>bucket = PlainAccountChangeSetBucket dbu, keys = AccountChangeSet ks\<rparr>,
      \<lparr>bucket = PlainStorageChangeSetBucket dbu, keys = StorageChangeSet ks\<rparr>] 0"
  unfolding cursor_at_def started_def
  using wf_batches_LimitIterator[of dbu ks lmt]
  by (simp add: LimitIterator_def)

lemma limit_started: "limit (started dbu ks lmt) = lmt"
  by (simp add: started_def LimitIterator_def)



lemma wf_exampleNames: "wf_dbutils exampleNames"
  by (simp add: wf_dbutils_def bucketNames_def exampleNames_def)



text \<open>
  When each of the four groups before the last holds fewer than \<open>DeleteLimit\<close> keys, the
  last holds at most \<open>DeleteLimit\<close> and no commit fails, \<^verbatim>\<open>batchDelete\<close> returns
  without error: the first round commits one batch with all the keys of the four groups,
  and each further round commits an empty batch and moves the offset in the last group
  by one, so that no key of the last group is deleted.
\<close>

lemma deleteAll_no_errors:
  "\<forall>bucketKey key. deleteErr d bucketKey key = None \<Longrightarrow> deleteAll d b lg ms = (b @ ms, lg)"
  by (induction d b lg ms rule: deleteAll.induct) (auto simp: batch_Delete_def)

lemma first_round_drains:
  assumes wf: "wf_dbutils dbu"
    and small: "int (length (AccountHistoryKeys ks)) < lmt" "int (length (StorageHistoryKeys ks)) < lmt"
      "int (length (StorageKeys ks)) < lmt" "int (length (AccountChangeSet ks)) < lmt"
  shows "\<exists>c. deleteRound d (ResetLimit (LimitIterator dbu ks lmt)) bt lg =
     Some (Inr ((LimitIterator dbu ks lmt)
                  \<lparr>currentBucket := PlainStorageChangeSetBucket dbu,
                   currentNum := (if StorageChangeSet ks = [] then 0 else 1), counter := c\<rparr>,
                deleteAll d bt lg (first_four dbu ks)))"
proof -
  have pos: "0 < lmt" using small(1) by linarith
  have e: "deleteRound d (ResetLimit (LimitIterator dbu ks lmt)) bt lg =
        deleteRound d (started dbu ks lmt) bt lg"
    by (rule deleteRound_cong_GetNext[OF GetNext_LimitIterator[OF wf pos]])
  have "\<exists>c. deleteRound d (started dbu ks lmt) bt lg =
     Some (Inr ((started dbu ks lmt)
                  \<lparr>currentBucket := PlainStorageChangeSetBucket dbu,
                   currentNum := (if StorageChangeSet ks = [] then 0 else 1), counter := c\<rparr>,
                deleteAll d bt lg (first_four dbu ks)))"
    using deleteRound_drain[OF cursor_at_started[OF wf, of ks lmt], of d bt lg] small
    by (simp add: limit_started group_mutations_def first_four_def)
  then show ?thesis unfolding e by (simp add: started_def)
qed

lemma batch_Commit_empty:
  "commitErr d [] = None \<Longrightarrow> batch_Commit d [] = (d\<lparr>committed := committed d @ [[]]\<rparr>, None)"
  by (simp add: batch_Commit_def survives_def split: sum.splits)

lemma cursor_at_ResetLimit: "cursor_at i pre b post n \<Longrightarrow> cursor_at (ResetLimit i) pre b post n"
  by (clarsimp simp: cursor_at_def ResetLimit_def)

lemma batchDelete_loop_last_group:
  assumes "cursor_at i pre b [] n" and "n \<le> length (keys b)"
    and "int (length (keys b)) \<le> limit i" and "\<forall>b. commitErr d b = None"
  shows "batchDelete_loop d i lg =
         Some (Inr (None, d\<lparr>committed := committed d @ replicate (length (keys b) - n) []\<rparr>, lg))"
  using assms
proof (induction "length (keys b) - n" arbitrary: i n d)
  case 0
  then have "HasMore i = Inr False" using HasMore_at[OF 0(2)] by simp
  with 0 show ?case by (subst batchDelete_loop.simps) simp
next
  case (Suc m)
  then have n: "n < length (keys b)" by simp
  have h: "HasMore i = Inr True" using HasMore_at[OF Suc(3)] n by simp
  let ?i1 = "ResetLimit i"
  have a1: "cursor_at ?i1 pre b [] n" using cursor_at_ResetLimit[OF Suc(3)] .
  have l1: "int n < limit ?i1" using n Suc(5) by (simp add: ResetLimit_def)
  let ?i2 = "?i1\<lparr>currentNum := int n + 1, counter := counter ?i1 + 1\<rparr>"
  have r: "deleteRound d ?i1 (NewBatch d) lg = Some (Inr (?i2, NewBatch d, lg))"
    using deleteRound_at_last[OF a1 l1, of d "NewBatch d" lg] n by simp
  let ?d1 = "d\<lparr>committed := committed d @ [[]]\<rparr>"
  have c: "batch_Commit d (NewBatch d) = (?d1, None)"
    using Suc(6) by (simp add: NewBatch_def batch_Commit_empty)
  have step: "batchDelete_loop d i lg = batchDelete_loop ?d1 ?i2 lg"
    by (subst batchDelete_loop.simps) (simp add: h r c)
  have a2: "cursor_at ?i2 pre b [] (Suc n)"
    using cursor_at_step[OF a1, where m = "Suc n" and c = "counter ?i1 + 1"] by (simp add: add.commute)
  have m: "m = length (keys b) - Suc n" using Suc(2) by simp
  have l2: "int (length (keys b)) \<le> limit ?i2" using Suc(5) by (simp add: ResetLimit_def)
  have ok: "\<forall>b. commitErr ?d1 b = None" using Suc(6) by simp
  have "batchDelete_loop ?d1 ?i2 lg =
        Some (Inr (None, ?d1\<lparr>committed := committed ?d1 @ replicate (length (keys b) - Suc n) []\<rparr>, lg))"
    using Suc(1)[OF m a2 _ l2 ok] n by simp
  moreover have "replicate (length (keys b) - n) ([] :: mutation list) =
                 [] # replicate (length (keys b) - Suc n) []"
    using n by (metis Suc_diff_Suc replicate_Suc)
  ultimately show ?case using step by simp
qed

lemma batchDelete_small_groups:
  assumes wf: "wf_dbutils dbu"
    and small: "int (length (AccountHistoryKeys ks)) < DeleteLimit"
      "int (length (StorageHistoryKeys ks)) < DeleteLimit"
      "int (length (StorageKeys ks)) < DeleteLimit" "int (length (AccountChangeSet ks)) < DeleteLimit"
    and lastg: "int (length (StorageChangeSet ks)) \<le> DeleteLimit"
    and ok: "\<forall>b. commitErr d b = None"
  shows "batchDelete dbu d ks lg =
     Some (Inr (None,
       d\<lparr>rows := (\<lambda>bucketKey. filter (survives (first_batch dbu d ks lg) bucketKey) (rows d bucketKey)),
         committed := committed d @ [first_batch dbu d ks lg] @
                      replicate (length (StorageChangeSet ks) - 1) []\<rparr>,
       snd (deleteAll d (NewBatch d) lg (first_four dbu ks))))"
proof -
  let ?i0 = "LimitIterator dbu ks DeleteLimit"
  let ?B = "first_batch dbu d ks lg"
  let ?lg1 = "snd (deleteAll d (NewBatch d) lg (first_four dbu ks))"
  from first_round_drains[OF wf small, of d "NewBatch d" lg]
  obtain c where r: "deleteRound d (ResetLimit ?i0) (NewBatch d) lg =
     Some (Inr (?i0\<lparr>currentBucket := PlainStorageChangeSetBucket dbu,
                   currentNum := (if StorageChangeSet ks = [] then 0 else 1), counter := c\<rparr>,
                ?B, ?lg1))"
    by (auto simp: first_batch_def)
  let ?n = "if StorageChangeSet ks = [] then 0 else 1 :: nat"
  let ?i1 = "?i0\<lparr>currentBucket := PlainStorageChangeSetBucket dbu, currentNum := int ?n, counter := c\<rparr>"
  let ?d1 = "d\<lparr>rows := (\<lambda>bucketKey. filter (survives ?B bucketKey) (rows d bucketKey)),
               committed := committed d @ [?B]\<rparr>"
  have r': "deleteRound d (ResetLimit ?i0) (NewBatch d) lg = Some (Inr (?i1, ?B, ?lg1))"
    using r by (simp split: if_splits)
  have c: "batch_Commit d ?B = (?d1, None)" using ok by (simp add: batch_Commit_def)
  have step: "batchDelete_loop d ?i0 lg = batchDelete_loop ?d1 ?i1 ?lg1"
    by (subst batchDelete_loop.simps) (simp add: HasMore_LimitIterator[OF wf] r' c del: One_nat_def)
  have a: "cursor_at ?i1
     [\<lparr>bucket = AccountsHistoryBucket dbu, keys = AccountHistoryKeys ks\<rparr>,
      \<lparr>bucket = StorageHistoryBucket dbu, keys = StorageHistoryKeys ks\<rparr>,
      \<lparr>bucket = HashedStorageBucket dbu, keys = StorageKeys ks\<rparr>,
      \<lparr>bucket = PlainAccountChangeSetBucket dbu, keys = AccountChangeSet ks\<rparr>]
     \<lparr>bucket = PlainStorageChangeSetBucket dbu, keys = StorageChangeSet ks\<rparr> [] ?n"
    unfolding cursor_at_def using wf_batches_LimitIterator[OF wf, of ks DeleteLimit]
    by (simp add: LimitIterator_def)
  have n: "?n \<le> length (keys \<lparr>bucket = PlainStorageChangeSetBucket dbu, keys = StorageChangeSet ks\<rparr>)"
    by (cases "StorageChangeSet ks") auto
  have l: "int (length (keys \<lparr>bucket = PlainStorageChangeSetBucket dbu, keys = StorageChangeSet ks\<rparr>)) \<le> limit ?i1"
    using lastg by (simp add: LimitIterator_def)
  have ok1: "\<forall>b. commitErr ?d1 b = None" using ok by simp
  have "batchDelete_loop ?d1 ?i1 ?lg1 =
     Some (Inr (None, ?d1\<lparr>committed := committed ?d1 @
        replicate (length (keys \<lparr>bucket = PlainStorageChangeSetBucket dbu, keys = StorageChangeSet ks\<rparr>) - ?n) []\<rparr>, ?lg1))"
    by (rule batchDelete_loop_last_group[OF a n l ok1])
  moreover have "length (StorageChangeSet ks) - ?n = length (StorageChangeSet ks) - 1"
    by (cases "StorageChangeSet ks") auto
  ultimately show ?thesis using step by (simp add: batchDelete_def del: One_nat_def)
qed

text \<open>
  C1 fails on the code. With one key in \<open>AccountHistoryKeys\<close> and two in
  \<open>StorageChangeSet\<close>, \<^verbatim>\<open>batchDelete\<close> returns without error after two rounds:
  the first commits the delete of the first key, the second commits an empty batch, and
  both rows of the storage change-set bucket are still in the store. \<^verbatim>\<open>GetNext\<close>
  leaves its loop at the last batch before comparing the bucket, so no key of the last
  group is ever returned.
\<close>

theorem batchDelete_skips_last_group:
  "map_option (map_sum id (\<lambda>(e, d, lg). (e, rows d ''hAT'', rows d ''PLAIN-SCS'', committed d, lg)))
     (batchDelete exampleNames lastGroupStore lastGroupKeys []) =
   Some (Inr (None, [], [Inr ([2], []), Inr ([3], [])], [[(''hAT'', [1])], []], []))"
  by code_simp

text \<open>
  C3 fails on the code. With 2 keys in \<open>AccountHistoryKeys\<close> and 69999 keys in
  \<open>AccountChangeSet\<close>, \<^verbatim>\<open>batchDelete\<close> commits one batch, of 70001 deletes:
  \<^verbatim>\<open>GetNext\<close> compares \<open>limit\<close> with the offset in the current group, which
  \<^verbatim>\<open>updateBucket\<close> resets at every group boundary, and never reads \<open>counter\<close>.
\<close>

theorem batchDelete_round_exceeds_limit:
  "map_option (map_sum id (\<lambda>(e, d, lg). (e, map length (committed d))))
     (batchDelete exampleNames emptyStore bigKeys []) =
   Some (Inr (None, [70001]))"
proof -
  have ok: "\<forall>b. commitErr emptyStore b = None" by (simp add: emptyStore_def)
  have ne: "\<forall>bucketKey key. deleteErr emptyStore bucketKey key = None" by (simp add: emptyStore_def)
  have fb: "first_batch exampleNames emptyStore bigKeys [] = first_four exampleNames bigKeys"
    by (simp add: first_batch_def deleteAll_no_errors[OF ne] NewBatch_def)
  have len: "length (first_four exampleNames bigKeys) = 70001"
    by (simp add: first_four_def bigKeys_def newKeysToRemove_def)
  have "batchDelete exampleNames emptyStore bigKeys [] =
     Some (Inr (None,
       emptyStore\<lparr>rows := (\<lambda>bucketKey. filter (survives (first_batch exampleNames emptyStore bigKeys []) bucketKey) (rows emptyStore bucketKey)),
         committed := committed emptyStore @ [first_batch exampleNames emptyStore bigKeys []] @
                      replicate (length (StorageChangeSet bigKeys) - 1) []\<rparr>,
       snd (deleteAll emptyStore (NewBatch emptyStore) [] (first_four exampleNames bigKeys))))"
    by (rule batchDelete_small_groups[OF wf_exampleNames _ _ _ _ _ ok])
       (simp_all add: bigKeys_def newKeysToRemove_def DeleteLimit_def)
  then show ?thesis
    by (simp add: fb len) (simp add: emptyStore_def bigKeys_def newKeysToRemove_def)
qed

subsection \<open>Scanning and collecting\<close>

text \<open>
  The state a walk leaves is the fold of the walker over the rows visited. Over a
  readable bucket, a walker whose flag depends on the row only and that returns no error
  visits the rows up to and including the first one at which the flag is false.
\<close>

lemma Walk_rows_state:
  "Walk_rows rs w s = (e, vis, s') \<Longrightarrow> s' = fold (\<lambda>(key, v) s. snd (w key v s)) vis s"
proof (induction rs w s arbitrary: e vis s' rule: Walk_rows.induct)
  case (1 walker s)
  then show ?case by simp
next
  case (2 err rs walker s)
  then show ?case by simp
next
  case (3 key v rs walker s)
  obtain continue oe s1 where w: "walker key v s = ((continue, oe), s1)"
    by (metis surj_pair)
  show ?case
  proof (cases oe)
    case (Some err)
    with 3(2) w show ?thesis by auto
  next
    case None
    show ?thesis
    proof (cases continue)
      case False
      with 3(2) w None show ?thesis by auto
    next
      case True
      obtain e2 vis2 s2 where r: "Walk_rows rs walker s1 = (e2, vis2, s2)"
        by (metis surj_pair)
      from 3(1)[OF w[symmetric] refl None True r]
      have "s2 = fold (\<lambda>(key, v) s. snd (walker key v s)) vis2 s1" .
      with 3(2) w None True r show ?thesis by auto
    qed
  qed
qed

lemma Walk_rows_readable:
  assumes "\<And>key v s. fst (w key v s) = (c (key, v), None)"
  shows "fst (Walk_rows (map Inr es) w s) = None \<and>
         fst (snd (Walk_rows (map Inr es) w s)) = takeWhile c es @ take 1 (dropWhile c es)"
proof (induction es arbitrary: s)
  case Nil
  then show ?case by simp
next
  case (Cons e es)
  obtain key v where e: "e = (key, v)" by (cases e)
  obtain s1 where w: "w key v s = ((c (key, v), None), s1)"
    using assms[of key v s] by (cases "w key v s") auto
  obtain e2 vis2 s2 where r: "Walk_rows (map Inr es) w s1 = (e2, vis2, s2)"
    by (metis surj_pair)
  with Cons[of s1] have "e2 = None" "vis2 = takeWhile c es @ take 1 (dropWhile c es)"
    by simp_all
  then show ?case
    by (cases "c (key, v)") (simp_all add: e w r)
qed

text \<open>The flag and the state of the two callbacks of \<^verbatim>\<open>Prune\<close>.\<close>

lemma accountWalker_flag:
  "fst (accountWalker dbu dec blockNumFrom blockNumTo key v ks) =
     (timestampOf dec (key, v) < blockNumFrom \<or> timestampOf dec (key, v) \<le> blockNumTo, None)"
  by (auto simp: accountWalker_def timestampOf_def Let_def split: prod.splits)

lemma storageWalker_flag:
  "fst (storageWalker dec blockNumFrom blockNumTo key v ks) =
     (timestampOf dec (key, v) < blockNumFrom \<or> timestampOf dec (key, v) \<le> blockNumTo, None)"
  by (auto simp: storageWalker_def timestampOf_def split: prod.splits)

lemma accountWalker_state:
  "snd (accountWalker dbu dec blockNumFrom blockNumTo key v ks) =
     (if inWindow dec blockNumFrom blockNumTo (key, v)
      then ks\<lparr>AccountHistoryKeys := AccountHistoryKeys ks @ [compositeOf dbu dec (key, v)],
              AccountChangeSet := AccountChangeSet ks @ [key]\<rparr>
      else ks)"
  by (auto simp: accountWalker_def inWindow_def timestampOf_def subjectOf_def compositeOf_def
        CopyBytes_def Let_def not_less split: prod.splits)

lemma storageWalker_state:
  "snd (storageWalker dec blockNumFrom blockNumTo key v ks) =
     (if inWindow dec blockNumFrom blockNumTo (key, v)
      then ks\<lparr>StorageChangeSet := StorageChangeSet ks @ [key]\<rparr>
      else ks)"
  by (auto simp: storageWalker_def inWindow_def timestampOf_def CopyBytes_def not_less
        split: prod.splits)

lemma fold_accountWalker:
  "fold (\<lambda>(key, v) s. snd (accountWalker dbu dec blockNumFrom blockNumTo key v s)) es ks =
     ks\<lparr>AccountHistoryKeys := AccountHistoryKeys ks @
          map (compositeOf dbu dec) (filter (inWindow dec blockNumFrom blockNumTo) es),
        AccountChangeSet := AccountChangeSet ks @
          map fst (filter (inWindow dec blockNumFrom blockNumTo) es)\<rparr>"
proof (induction es arbitrary: ks)
  case Nil
  then show ?case by simp
next
  case (Cons e es)
  obtain key v where e: "e = (key, v)" by (cases e)
  show ?case
    unfolding e using Cons by (simp add: accountWalker_state)
qed

lemma fold_storageWalker:
  "fold (\<lambda>(key, v) s. snd (storageWalker dec blockNumFrom blockNumTo key v s)) es ks =
     ks\<lparr>StorageChangeSet := StorageChangeSet ks @
          map fst (filter (inWindow dec blockNumFrom blockNumTo) es)\<rparr>"
proof (induction es arbitrary: ks)
  case Nil
  then show ?case by simp
next
  case (Cons e es)
  obtain key v where e: "e = (key, v)" by (cases e)
  show ?case
    unfolding e using Cons by (simp add: storageWalker_state)
qed

text \<open>The rows visited, the rows above the window among them, and the rows collected.\<close>

lemma filter_past_scanned:
  "filter (\<lambda>e. blockNumTo < timestampOf dec e) (scanned dec blockNumTo es) =
   take 1 (dropWhile (\<lambda>e. timestampOf dec e \<le> blockNumTo) es)"
proof -
  let ?Q = "\<lambda>e. timestampOf dec e \<le> blockNumTo"
  have 1: "filter (\<lambda>e. blockNumTo < timestampOf dec e) (takeWhile ?Q es) = []"
    by (auto simp: filter_empty_conv dest: set_takeWhileD)
  have 2: "filter (\<lambda>e. blockNumTo < timestampOf dec e) (take 1 (dropWhile ?Q es)) =
           take 1 (dropWhile ?Q es)"
  proof (cases "dropWhile ?Q es")
    case Nil
    show ?thesis unfolding Nil by simp
  next
    case (Cons x xs)
    then have "\<not> ?Q x" by (metis hd_dropWhile list.distinct(1) list.sel(1))
    then show ?thesis unfolding Cons by simp
  qed
  show ?thesis by (simp add: scanned_def 1 2 del: take_Suc_Cons One_nat_def)
qed

lemma filter_window_scanned:
  "filter (inWindow dec blockNumFrom blockNumTo) (scanned dec blockNumTo es) =
   filter (inWindow dec blockNumFrom blockNumTo) (takeWhile (\<lambda>e. timestampOf dec e \<le> blockNumTo) es)"
proof -
  let ?Q = "\<lambda>e. timestampOf dec e \<le> blockNumTo"
  have "filter (inWindow dec blockNumFrom blockNumTo) (take 1 (dropWhile ?Q es)) = []"
  proof (cases "dropWhile ?Q es")
    case Nil
    show ?thesis unfolding Nil by simp
  next
    case (Cons x xs)
    then have "\<not> ?Q x" by (metis hd_dropWhile list.distinct(1) list.sel(1))
    then show ?thesis unfolding Cons by (simp add: inWindow_def)
  qed
  then show ?thesis by (simp add: scanned_def del: One_nat_def)
qed

lemma sorted_dropWhile_past:
  "sorted (map f es) \<Longrightarrow> x \<in> set (dropWhile (\<lambda>e. f e \<le> t) es) \<Longrightarrow> t < (f x :: uint64)"
proof (induction es)
  case Nil
  then show ?case by simp
next
  case (Cons e es)
  show ?case
  proof (cases "f e \<le> t")
    case True
    with Cons show ?thesis by simp
  next
    case False
    with Cons.prems show ?thesis by (auto simp: not_le)
  qed
qed

lemma filter_window_sorted:
  assumes "sorted (map (timestampOf dec) es)"
  shows "filter (inWindow dec blockNumFrom blockNumTo) (takeWhile (\<lambda>e. timestampOf dec e \<le> blockNumTo) es) =
         filter (inWindow dec blockNumFrom blockNumTo) es"
proof -
  let ?Q = "\<lambda>e. timestampOf dec e \<le> blockNumTo"
  have "\<not> inWindow dec blockNumFrom blockNumTo x" if "x \<in> set (dropWhile ?Q es)" for x
    using sorted_dropWhile_past[OF assms that] by (auto simp: inWindow_def not_le)
  then have "filter (inWindow dec blockNumFrom blockNumTo) (dropWhile ?Q es) = []"
    by (simp add: filter_empty_conv)
  then have "filter (inWindow dec blockNumFrom blockNumTo) (takeWhile ?Q es @ dropWhile ?Q es) =
             filter (inWindow dec blockNumFrom blockNumTo) (takeWhile ?Q es)"
    by (simp del: takeWhile_dropWhile_id)
  then show ?thesis by simp
qed

lemma Walk_account_readable:
  assumes r: "rows d bucketKey = map Inr es" and le: "blockNumFrom \<le> blockNumTo"
  shows "Walk d bucketKey (accountWalker dbu dec blockNumFrom blockNumTo) ks =
     (None, scanned dec blockNumTo es,
      ks\<lparr>AccountHistoryKeys := AccountHistoryKeys ks @
           map (compositeOf dbu dec) (filter (inWindow dec blockNumFrom blockNumTo)
             (takeWhile (\<lambda>e. timestampOf dec e \<le> blockNumTo) es)),
         AccountChangeSet := AccountChangeSet ks @
           map fst (filter (inWindow dec blockNumFrom blockNumTo)
             (takeWhile (\<lambda>e. timestampOf dec e \<le> blockNumTo) es))\<rparr>)"
proof -
  let ?w = "accountWalker dbu dec blockNumFrom blockNumTo"
  have c: "(timestampOf dec e < blockNumFrom \<or> timestampOf dec e \<le> blockNumTo) =
           (timestampOf dec e \<le> blockNumTo)" for e
    using le by auto
  have f: "fst (?w key v s) = ((\<lambda>e. timestampOf dec e \<le> blockNumTo) (key, v), None)" for key v s
    by (simp add: accountWalker_flag c)
  obtain e vis s' where w: "Walk_rows (map Inr es) ?w ks = (e, vis, s')"
    by (metis surj_pair)
  from Walk_rows_readable[of ?w "\<lambda>e. timestampOf dec e \<le> blockNumTo", OF f, of es ks] w
  have e: "e = None" and vis: "vis = scanned dec blockNumTo es"
    by (simp_all add: scanned_def)
  from Walk_rows_state[OF w] have "s' = fold (\<lambda>(key, v) s. snd (?w key v s)) vis ks" .
  then show ?thesis
    by (simp add: Walk_def r w e vis fold_accountWalker filter_window_scanned)
qed

lemma Walk_storage_readable:
  assumes r: "rows d bucketKey = map Inr es" and le: "blockNumFrom \<le> blockNumTo"
  shows "Walk d bucketKey (storageWalker dec blockNumFrom blockNumTo) ks =
     (None, scanned dec blockNumTo es,
      ks\<lparr>StorageChangeSet := StorageChangeSet ks @
           map fst (filter (inWindow dec blockNumFrom blockNumTo)
             (takeWhile (\<lambda>e. timestampOf dec e \<le> blockNumTo) es))\<rparr>)"
proof -
  let ?w = "storageWalker dec blockNumFrom blockNumTo"
  have c: "(timestampOf dec e < blockNumFrom \<or> timestampOf dec e \<le> blockNumTo) =
           (timestampOf dec e \<le> blockNumTo)" for e
    using le by auto
  have f: "fst (?w key v s) = ((\<lambda>e. timestampOf dec e \<le> blockNumTo) (key, v), None)" for key v s
    by (simp add: storageWalker_flag c)
  obtain e vis s' where w: "Walk_rows (map Inr es) ?w ks = (e, vis, s')"
    by (metis surj_pair)
  from Walk_rows_readable[of ?w "\<lambda>e. timestampOf dec e \<le> blockNumTo", OF f, of es ks] w
  have e: "e = None" and vis: "vis = scanned dec blockNumTo es"
    by (simp_all add: scanned_def)
  from Walk_rows_state[OF w] have "s' = fold (\<lambda>(key, v) s. snd (?w key v s)) vis ks" .
  then show ?thesis
    by (simp add: Walk_def r w e vis fold_storageWalker filter_window_scanned)
qed

text \<open>
  C5, as amended. Over a readable bucket and a window with \<open>from \<le> to\<close>, the walk of
  either change-set bucket returns no error and visits the rows up to and including the
  first one whose timestamp is above \<open>to\<close>, where the callback returns
  \<open>continue = false\<close>: that row is visited (and decoded) but not collected, and no row
  after it is visited. Of the rows visited, those below \<open>from\<close> are skipped and those in
  the window are collected, in order; when the timestamps ascend, these are all the rows
  of the bucket that lie in the window.
\<close>

theorem scan_stops_after_first_past_window:
  assumes "rows d bucketKey = map Inr es" and "blockNumFrom \<le> blockNumTo"
  shows "Walk d bucketKey (accountWalker dbu dec blockNumFrom blockNumTo) ks =
           (None, scanned dec blockNumTo es,
            ks\<lparr>AccountHistoryKeys := AccountHistoryKeys ks @
                 map (compositeOf dbu dec) (filter (inWindow dec blockNumFrom blockNumTo)
                   (takeWhile (\<lambda>e. timestampOf dec e \<le> blockNumTo) es)),
               AccountChangeSet := AccountChangeSet ks @
                 map fst (filter (inWindow dec blockNumFrom blockNumTo)
                   (takeWhile (\<lambda>e. timestampOf dec e \<le> blockNumTo) es))\<rparr>) \<and>
         Walk d bucketKey (storageWalker dec blockNumFrom blockNumTo) ks =
           (None, scanned dec blockNumTo es,
            ks\<lparr>StorageChangeSet := StorageChangeSet ks @
                 map fst (filter (inWindow dec blockNumFrom blockNumTo)
                   (takeWhile (\<lambda>e. timestampOf dec e \<le> blockNumTo) es))\<rparr>) \<and>
         filter (\<lambda>e. blockNumTo < timestampOf dec e) (scanned dec blockNumTo es) =
           take 1 (dropWhile (\<lambda>e. timestampOf dec e \<le> blockNumTo) es) \<and>
         (sorted (map (timestampOf dec) es) \<longrightarrow>
            filter (inWindow dec blockNumFrom blockNumTo)
              (takeWhile (\<lambda>e. timestampOf dec e \<le> blockNumTo) es) =
            filter (inWindow dec blockNumFrom blockNumTo) es)"
  using Walk_account_readable[OF assms] Walk_storage_readable[OF assms]
    filter_past_scanned filter_window_sorted
  by blast

lemma rows_scenarioStore: "rows scenarioStore ''PLAIN-ACS'' = map Inr scenarioEntries"
  by (simp add: scenarioStore_def emptyStore_def)

theorem scan_stops_after_first_past_window_witness:
  "Walk scenarioStore ''PLAIN-ACS'' (accountWalker exampleNames exampleDecode 0 10100) newKeysToRemove =
     (None, [([19, 136], [1]), ([39, 116], [2]), ([39, 117], [3])],
      newKeysToRemove
        \<lparr>AccountHistoryKeys := [[1, 0, 0, 0, 0, 0, 0, 19, 136], [2, 0, 0, 0, 0, 0, 0, 39, 116]],
         AccountChangeSet := [[19, 136], [39, 116]]\<rparr>)"
proof -
  have le: "(0 :: uint64) \<le> 10100" by simp
  have tw: "filter (inWindow exampleDecode 0 10100)
              (takeWhile (\<lambda>e. timestampOf exampleDecode e \<le> 10100) scenarioEntries) =
            [([19, 136], [1]), ([39, 116], [2])]"
    by (simp add: inWindow_def timestampOf_def exampleDecode_def decodeTimestamp_def
          scenarioEntries_def)
  have sc: "scanned exampleDecode 10100 scenarioEntries =
            [([19, 136], [1]), ([39, 116], [2]), ([39, 117], [3])]"
    by (simp add: scanned_def timestampOf_def exampleDecode_def decodeTimestamp_def scenarioEntries_def)
  have cw: "compositeOf exampleNames exampleDecode ([19, 136], [1]) = [1, 0, 0, 0, 0, 0, 0, 19, 136]"
    "compositeOf exampleNames exampleDecode ([39, 116], [2]) = [2, 0, 0, 0, 0, 0, 0, 39, 116]"
    by (simp_all add: compositeOf_def subjectOf_def timestampOf_def exampleDecode_def decodeTimestamp_def
          exampleNames_def encodeTimestamp_def drop_bit_eq_div)
  from scan_stops_after_first_past_window[OF rows_scenarioStore le,
      of exampleNames exampleDecode newKeysToRemove]
  show ?thesis
    by (simp add: tw sc cw newKeysToRemove_def)
qed

text \<open>
  C5 as stated fails in its last clause: in the scenario of the specification the scan
  visits the row of timestamp 10101, which is above \<open>to = 10100\<close>.
\<close>

theorem scan_visits_first_past_window:
  "fst (snd (Walk scenarioStore ''PLAIN-ACS''
               (accountWalker exampleNames exampleDecode 0 10100) newKeysToRemove)) =
     [([19, 136], [1]), ([39, 116], [2]), ([39, 117], [3])] \<and>
   timestampOf exampleDecode ([39, 117], [3]) = 10101 \<and> (10100 :: uint64) < 10101"
  by (simp add: Walk_def scenarioStore_def emptyStore_def scenarioEntries_def accountWalker_def
        exampleDecode_def decodeTimestamp_def timestampOf_def)

lemma Walk_rows_flag:
  assumes "\<And>key v s. fst (w key v s) = (c (key, v), None)"
  shows "Walk_rows rs w s =
     (walk_error c rs, visited_rows c rs,
      fold (\<lambda>(key, v) s. snd (w key v s)) (visited_rows c rs) s)"
proof (induction rs arbitrary: s)
  case Nil
  then show ?case by simp
next
  case (Cons r rs)
  show ?case
  proof (cases r)
    case (Inl err)
    then show ?thesis by simp
  next
    case (Inr e)
    obtain key v where e: "e = (key, v)" by (cases e)
    obtain s1 where w: "w key v s = ((c (key, v), None), s1)"
      using assms[of key v s] by (cases "w key v s") auto
    show ?thesis
      by (cases "c (key, v)") (simp_all add: Inr e w Cons[of s1])
  qed
qed

lemma Walk_account:
  "Walk d bucketKey (accountWalker dbu dec blockNumFrom blockNumTo) ks =
     (walk_error (passes dec blockNumFrom blockNumTo) (rows d bucketKey),
      visited_rows (passes dec blockNumFrom blockNumTo) (rows d bucketKey),
      ks\<lparr>AccountHistoryKeys := AccountHistoryKeys ks @
           map (compositeOf dbu dec) (filter (inWindow dec blockNumFrom blockNumTo)
             (visited_rows (passes dec blockNumFrom blockNumTo) (rows d bucketKey))),
         AccountChangeSet := AccountChangeSet ks @
           map fst (filter (inWindow dec blockNumFrom blockNumTo)
             (visited_rows (passes dec blockNumFrom blockNumTo) (rows d bucketKey)))\<rparr>)"
proof -
  have f: "fst (accountWalker dbu dec blockNumFrom blockNumTo key v s) =
           (passes dec blockNumFrom blockNumTo (key, v), None)" for key v s
    by (simp add: accountWalker_flag passes_def)
  show ?thesis
    unfolding Walk_def Walk_rows_flag[of "accountWalker dbu dec blockNumFrom blockNumTo", OF f]
    by (simp add: fold_accountWalker)
qed

lemma Walk_storage:
  "Walk d bucketKey (storageWalker dec blockNumFrom blockNumTo) ks =
     (walk_error (passes dec blockNumFrom blockNumTo) (rows d bucketKey),
      visited_rows (passes dec blockNumFrom blockNumTo) (rows d bucketKey),
      ks\<lparr>StorageChangeSet := StorageChangeSet ks @
           map fst (filter (inWindow dec blockNumFrom blockNumTo)
             (visited_rows (passes dec blockNumFrom blockNumTo) (rows d bucketKey)))\<rparr>)"
proof -
  have f: "fst (storageWalker dec blockNumFrom blockNumTo key v s) =
           (passes dec blockNumFrom blockNumTo (key, v), None)" for key v s
    by (simp add: storageWalker_flag passes_def)
  show ?thesis
    unfolding Walk_def Walk_rows_flag[of "storageWalker dec blockNumFrom blockNumTo", OF f]
    by (simp add: fold_storageWalker)
qed

lemma visited_rows_readable:
  assumes "blockNumFrom \<le> blockNumTo"
  shows "visited_rows (passes dec blockNumFrom blockNumTo) (map Inr es) = scanned dec blockNumTo es"
proof -
  have c: "passes dec blockNumFrom blockNumTo e = (timestampOf dec e \<le> blockNumTo)" for e
    using assms by (auto simp: passes_def)
  show ?thesis
    unfolding scanned_def by (induction es) (simp_all add: c)
qed

lemma walk_error_readable: "walk_error c (map Inr es) = None"
  by (induction es) simp_all

text \<open>
  C9. What the two walks of \<^verbatim>\<open>Prune\<close> collect, for every store, decoder and window,
  in terms of the rows of the two buckets. The account walk visits the rows of the
  account change-set bucket up to the first one past the window or the first unreadable
  one; for each visited row within the window, in order, the raw key goes to
  \<open>AccountChangeSet\<close> and the first result of \<^verbatim>\<open>CompositeKeySuffix\<close> on the subject key
  and the timestamp goes to \<open>AccountHistoryKeys\<close>. The storage walk does the same over
  the storage change-set bucket with the raw key only, to \<open>StorageChangeSet\<close>;
  \<open>StorageHistoryKeys\<close>, \<open>StorageKeys\<close> and \<open>IntermediateTrieHashKeys\<close> stay empty. The
  only error is that of an unreadable row: the storage callback never returns one. Over a
  readable bucket and a window with \<open>from \<le> to\<close> no error arises, and when the
  timestamps ascend the rows collected are all the rows of the bucket within the window.
\<close>

theorem collected_keys:
  "(let bucketA = PlainAccountChangeSetBucket dbu; bucketS = PlainStorageChangeSetBucket dbu;
        decA = Mapper bucketA; decS = Mapper bucketS;
        visitedA = visited_rows (passes decA blockNumFrom blockNumTo) (rows d bucketA);
        visitedS = visited_rows (passes decS blockNumFrom blockNumTo) (rows d bucketS);
        collected =
          \<lparr>AccountHistoryKeys =
             map (\<lambda>e. fst (CompositeKeySuffix dbu (subjectOf decA e) (timestampOf decA e)))
               (filter (inWindow decA blockNumFrom blockNumTo) visitedA),
           StorageHistoryKeys = [],
           AccountChangeSet = map fst (filter (inWindow decA blockNumFrom blockNumTo) visitedA),
           StorageChangeSet = map fst (filter (inWindow decS blockNumFrom blockNumTo) visitedS),
           StorageKeys = [], IntermediateTrieHashKeys = []\<rparr>
    in Prune_collect dbu Mapper d blockNumFrom blockNumTo =
         (case walk_error (passes decA blockNumFrom blockNumTo) (rows d bucketA) of
            Some err \<Rightarrow> (Inl err, visitedA, [])
          | None \<Rightarrow>
              (case walk_error (passes decS blockNumFrom blockNumTo) (rows d bucketS) of
                 Some err \<Rightarrow> (Inl err, visitedA, visitedS)
               | None \<Rightarrow> (Inr collected, visitedA, visitedS)))) \<and>
   snd (fst (storageWalker dec blockNumFrom blockNumTo key v s)) = None \<and>
   StorageHistoryKeys (snd (storageWalker dec blockNumFrom blockNumTo key v s)) = StorageHistoryKeys s \<and>
   (rows d bucketKey = map Inr es \<and> blockNumFrom \<le> blockNumTo \<longrightarrow>
      walk_error (passes dec blockNumFrom blockNumTo) (rows d bucketKey) = None \<and>
      visited_rows (passes dec blockNumFrom blockNumTo) (rows d bucketKey) = scanned dec blockNumTo es \<and>
      (sorted (map (timestampOf dec) es) \<longrightarrow>
         filter (inWindow dec blockNumFrom blockNumTo)
           (visited_rows (passes dec blockNumFrom blockNumTo) (rows d bucketKey)) =
         filter (inWindow dec blockNumFrom blockNumTo) es))"
proof -
  have 1: "Prune_collect dbu Mapper d blockNumFrom blockNumTo =
         (case walk_error (passes (Mapper (PlainAccountChangeSetBucket dbu)) blockNumFrom blockNumTo)
                 (rows d (PlainAccountChangeSetBucket dbu)) of
            Some err \<Rightarrow>
              (Inl err,
               visited_rows (passes (Mapper (PlainAccountChangeSetBucket dbu)) blockNumFrom blockNumTo)
                 (rows d (PlainAccountChangeSetBucket dbu)), [])
          | None \<Rightarrow>
              (case walk_error (passes (Mapper (PlainStorageChangeSetBucket dbu)) blockNumFrom blockNumTo)
                      (rows d (PlainStorageChangeSetBucket dbu)) of
                 Some err \<Rightarrow>
                   (Inl err,
                    visited_rows (passes (Mapper (PlainAccountChangeSetBucket dbu)) blockNumFrom blockNumTo)
                      (rows d (PlainAccountChangeSetBucket dbu)),
                    visited_rows (passes (Mapper (PlainStorageChangeSetBucket dbu)) blockNumFrom blockNumTo)
                      (rows d (PlainStorageChangeSetBucket dbu)))
               | None \<Rightarrow>
                   (Inr \<lparr>AccountHistoryKeys =
                          map (compositeOf dbu (Mapper (PlainAccountChangeSetBucket dbu)))
                            (filter (inWindow (Mapper (PlainAccountChangeSetBucket dbu)) blockNumFrom blockNumTo)
                              (visited_rows (passes (Mapper (PlainAccountChangeSetBucket dbu)) blockNumFrom blockNumTo)
                                (rows d (PlainAccountChangeSetBucket dbu)))),
                        StorageHistoryKeys = [],
                        AccountChangeSet =
                          map fst
                            (filter (inWindow (Mapper (PlainAccountChangeSetBucket dbu)) blockNumFrom blockNumTo)
                              (visited_rows (passes (Mapper (PlainAccountChangeSetBucket dbu)) blockNumFrom blockNumTo)
                                (rows d (PlainAccountChangeSetBucket dbu)))),
                        StorageChangeSet =
                          map fst
                            (filter (inWindow (Mapper (PlainStorageChangeSetBucket dbu)) blockNumFrom blockNumTo)
                              (visited_rows (passes (Mapper (PlainStorageChangeSetBucket dbu)) blockNumFrom blockNumTo)
                                (rows d (PlainStorageChangeSetBucket dbu)))),
                        StorageKeys = [], IntermediateTrieHashKeys = []\<rparr>,
                    visited_rows (passes (Mapper (PlainAccountChangeSetBucket dbu)) blockNumFrom blockNumTo)
                      (rows d (PlainAccountChangeSetBucket dbu)),
                    visited_rows (passes (Mapper (PlainStorageChangeSetBucket dbu)) blockNumFrom blockNumTo)
                      (rows d (PlainStorageChangeSetBucket dbu)))))"
    unfolding Prune_collect_def Walk_account Walk_storage
    by (simp add: newKeysToRemove_def split: option.splits)
  have 2: "snd (fst (storageWalker dec blockNumFrom blockNumTo key v s)) = None"
    by (simp add: storageWalker_flag)
  have 3: "StorageHistoryKeys (snd (storageWalker dec blockNumFrom blockNumTo key v s)) = StorageHistoryKeys s"
    by (simp add: storageWalker_state)
  have 4: "walk_error (passes dec blockNumFrom blockNumTo) (rows d bucketKey) = None \<and>
      visited_rows (passes dec blockNumFrom blockNumTo) (rows d bucketKey) = scanned dec blockNumTo es \<and>
      (sorted (map (timestampOf dec) es) \<longrightarrow>
         filter (inWindow dec blockNumFrom blockNumTo)
           (visited_rows (passes dec blockNumFrom blockNumTo) (rows d bucketKey)) =
         filter (inWindow dec blockNumFrom blockNumTo) es)"
    if "rows d bucketKey = map Inr es" "blockNumFrom \<le> blockNumTo"
    unfolding that(1) visited_rows_readable[OF that(2)] walk_error_readable
    by (simp add: filter_window_scanned filter_window_sorted)
  from 1 2 3 4 show ?thesis
    unfolding Let_def compositeOf_def[abs_def] by blast
qed

theorem collected_keys_witness:
  "Prune_collect exampleNames exampleMapper scenarioStore 0 10100 =
     (Inr \<lparr>AccountHistoryKeys = [[1, 0, 0, 0, 0, 0, 0, 19, 136], [2, 0, 0, 0, 0, 0, 0, 39, 116]],
           StorageHistoryKeys = [], AccountChangeSet = [[19, 136], [39, 116]],
           StorageChangeSet = [[27, 88]], StorageKeys = [], IntermediateTrieHashKeys = []\<rparr>,
      [([19, 136], [1]), ([39, 116], [2]), ([39, 117], [3])],
      [([27, 88], [5]), ([78, 32], [6])])"
proof -
  have a: "rows scenarioStore (PlainAccountChangeSetBucket exampleNames) = map Inr scenarioEntries"
    and s: "rows scenarioStore (PlainStorageChangeSetBucket exampleNames) =
            map Inr [([27, 88], [5]), ([78, 32], [6])]"
    by (simp_all add: scenarioStore_def emptyStore_def exampleNames_def)
  have le: "(0 :: uint64) \<le> 10100" by simp
  note t = collected_keys[where dbu = exampleNames and Mapper = exampleMapper
      and blockNumFrom = 0 and blockNumTo = 10100 and d = scenarioStore]
  from t[where dec = "exampleMapper (PlainAccountChangeSetBucket exampleNames)"
        and bucketKey = "PlainAccountChangeSetBucket exampleNames" and es = scenarioEntries] a le
  have ea: "walk_error (passes (exampleMapper (PlainAccountChangeSetBucket exampleNames)) 0 10100)
              (rows scenarioStore (PlainAccountChangeSetBucket exampleNames)) = None"
    and va: "visited_rows (passes (exampleMapper (PlainAccountChangeSetBucket exampleNames)) 0 10100)
              (rows scenarioStore (PlainAccountChangeSetBucket exampleNames)) =
             scanned (exampleMapper (PlainAccountChangeSetBucket exampleNames)) 10100 scenarioEntries"
    by blast+
  from t[where dec = "exampleMapper (PlainStorageChangeSetBucket exampleNames)"
        and bucketKey = "PlainStorageChangeSetBucket exampleNames"
        and es = "[([27, 88], [5]), ([78, 32], [6])]"] s le
  have es: "walk_error (passes (exampleMapper (PlainStorageChangeSetBucket exampleNames)) 0 10100)
              (rows scenarioStore (PlainStorageChangeSetBucket exampleNames)) = None"
    and vs: "visited_rows (passes (exampleMapper (PlainStorageChangeSetBucket exampleNames)) 0 10100)
              (rows scenarioStore (PlainStorageChangeSetBucket exampleNames)) =
             scanned (exampleMapper (PlainStorageChangeSetBucket exampleNames)) 10100
               [([27, 88], [5]), ([78, 32], [6])]"
    by blast+
  have sa: "scanned exampleDecode 10100 scenarioEntries =
            [([19, 136], [1]), ([39, 116], [2]), ([39, 117], [3])]"
    and ss: "scanned exampleDecode 10100 [([27, 88], [5]), ([78, 32], [6])] =
            [([27, 88], [5]), ([78, 32], [6])]"
    by (simp_all add: scanned_def timestampOf_def exampleDecode_def decodeTimestamp_def
          scenarioEntries_def)
  from t have "Prune_collect exampleNames exampleMapper scenarioStore 0 10100 =
     (Inr \<lparr>AccountHistoryKeys =
             map (\<lambda>e. fst (CompositeKeySuffix exampleNames (subjectOf exampleDecode e)
                            (timestampOf exampleDecode e)))
               (filter (inWindow exampleDecode 0 10100)
                  [([19, 136], [1]), ([39, 116], [2]), ([39, 117], [3])]),
           StorageHistoryKeys = [],
           AccountChangeSet = map fst (filter (inWindow exampleDecode 0 10100)
                  [([19, 136], [1]), ([39, 116], [2]), ([39, 117], [3])]),
           StorageChangeSet = map fst (filter (inWindow exampleDecode 0 10100)
                  [([27, 88], [5]), ([78, 32], [6])]),
           StorageKeys = [], IntermediateTrieHashKeys = []\<rparr>,
      [([19, 136], [1]), ([39, 116], [2]), ([39, 117], [3])],
      [([27, 88], [5]), ([78, 32], [6])])"
    unfolding Let_def ea es va vs
    by (simp add: exampleMapper_def sa ss)
  then show ?thesis
    by (simp add: inWindow_def timestampOf_def subjectOf_def exampleDecode_def decodeTimestamp_def
          exampleNames_def encodeTimestamp_def drop_bit_eq_div)
qed

lemma accountWalker_dropDecodeError:
  "accountWalker dbu (dropDecodeError Mapper bucketKey) = accountWalker dbu (Mapper bucketKey)"
  by (intro ext) (simp add: accountWalker_def dropDecodeError_def split: prod.splits)

lemma storageWalker_dropDecodeError:
  "storageWalker (dropDecodeError Mapper bucketKey) = storageWalker (Mapper bucketKey)"
  by (intro ext) (simp add: storageWalker_def dropDecodeError_def split: prod.splits)

lemma Prune_collect_dropDecodeError:
  "Prune_collect dbu (dropDecodeError Mapper) d blockNumFrom blockNumTo =
   Prune_collect dbu Mapper d blockNumFrom blockNumTo"
  unfolding Prune_collect_def accountWalker_dropDecodeError storageWalker_dropDecodeError
  by (rule refl)

text \<open>
  C4, as amended. \<^verbatim>\<open>Prune\<close> discards the error result of the decoder: it behaves as
  with the decoder that returns the same timestamp and subject key and never an error.
  An error returned by one of the two walks makes \<^verbatim>\<open>Prune\<close> return that error with
  the store untouched; and when \<^verbatim>\<open>Prune\<close> returns an error the tick logs it, leaves
  \<open>LastPrunedBlockNum\<close> as it is and ends the loop.
\<close>

theorem decode_error_discarded_walk_error_returned:
  "Prune dbu (dropDecodeError Mapper) d blockNumFrom blockNumTo lg =
     Prune dbu Mapper d blockNumFrom blockNumTo lg \<and>
   (fst (Walk d (PlainAccountChangeSetBucket dbu)
           (accountWalker dbu (Mapper (PlainAccountChangeSetBucket dbu)) blockNumFrom blockNumTo)
           newKeysToRemove) = Some err \<longrightarrow>
      Prune dbu Mapper d blockNumFrom blockNumTo lg = Some (Inr (Some err, d, lg))) \<and>
   (Walk d (PlainAccountChangeSetBucket dbu)
           (accountWalker dbu (Mapper (PlainAccountChangeSetBucket dbu)) blockNumFrom blockNumTo)
           newKeysToRemove = (None, visitedA, ks1) \<and>
    fst (Walk d (PlainStorageChangeSetBucket dbu)
           (storageWalker (Mapper (PlainStorageChangeSetBucket dbu)) blockNumFrom blockNumTo)
           ks1) = Some err \<longrightarrow>
      Prune dbu Mapper d blockNumFrom blockNumTo lg = Some (Inr (Some err, d, lg))) \<and>
   (Prune dbu Mapper d blockNumFrom blockNumTo lg = Some (Inr (Some err, d', lg')) \<and>
    chain p = Some cb \<and>
    calculateNumOfPrunedBlocks cb (LastPrunedBlockNum p) (BlocksBeforePruning (config p))
      (BlocksToPrune (config p)) = (blockNumFrom, blockNumTo, True) \<longrightarrow>
      pruneTick dbu Mapper p d lg =
        Some (Inr (p, d', lg' @ [LogError ''Pruning error'' err], False)))"
proof -
  have 1: "Prune dbu (dropDecodeError Mapper) d blockNumFrom blockNumTo lg =
           Prune dbu Mapper d blockNumFrom blockNumTo lg"
    by (simp add: Prune_def Prune_collect_dropDecodeError)
  have 2: "Prune dbu Mapper d blockNumFrom blockNumTo lg = Some (Inr (Some err, d, lg))"
    if "fst (Walk d (PlainAccountChangeSetBucket dbu)
           (accountWalker dbu (Mapper (PlainAccountChangeSetBucket dbu)) blockNumFrom blockNumTo)
           newKeysToRemove) = Some err"
    using that by (auto simp: Prune_def Prune_collect_def split: prod.splits option.splits)
  have 3: "Prune dbu Mapper d blockNumFrom blockNumTo lg = Some (Inr (Some err, d, lg))"
    if "Walk d (PlainAccountChangeSetBucket dbu)
           (accountWalker dbu (Mapper (PlainAccountChangeSetBucket dbu)) blockNumFrom blockNumTo)
           newKeysToRemove = (None, visitedA, ks1)"
      "fst (Walk d (PlainStorageChangeSetBucket dbu)
           (storageWalker (Mapper (PlainStorageChangeSetBucket dbu)) blockNumFrom blockNumTo)
           ks1) = Some err"
    using that by (auto simp: Prune_def Prune_collect_def split: prod.splits option.splits)
  have 4: "pruneTick dbu Mapper p d lg =
        Some (Inr (p, d', lg' @ [LogError ''Pruning error'' err], False))"
    if "Prune dbu Mapper d blockNumFrom blockNumTo lg = Some (Inr (Some err, d', lg'))"
      "chain p = Some cb"
      "calculateNumOfPrunedBlocks cb (LastPrunedBlockNum p) (BlocksBeforePruning (config p))
         (BlocksToPrune (config p)) = (blockNumFrom, blockNumTo, True)"
    using that by (simp add: pruneTick_def)
  from 1 2 3 4 show ?thesis by blast
qed

lemma broken_walk:
  "fst (Walk brokenStore ''PLAIN-ACS'' (accountWalker exampleNames exampleDecode 0 10100)
          newKeysToRemove) = Some (StoreError ''read failed'')"
  by code_simp

lemma scenario_range:
  "calculateNumOfPrunedBlocks 100100 0 90000 70000 = (0, 10100, True)"
  by (simp add: calculateNumOfPrunedBlocks_def)

theorem decode_error_discarded_walk_error_returned_witness:
  "Prune exampleNames exampleMapper brokenStore 0 10100 [] =
     Some (Inr (Some (StoreError ''read failed''), brokenStore, [])) \<and>
   pruneTick exampleNames exampleMapper scenarioPruner brokenStore [] =
     Some (Inr (scenarioPruner, brokenStore,
                [LogError ''Pruning error'' (StoreError ''read failed'')], False)) \<and>
   Prune exampleNames (dropDecodeError failingMapper) scenarioStore 0 10100 [] =
     Prune exampleNames failingMapper scenarioStore 0 10100 []"
proof -
  have w: "fst (Walk brokenStore (PlainAccountChangeSetBucket exampleNames)
             (accountWalker exampleNames (exampleMapper (PlainAccountChangeSetBucket exampleNames)) 0 10100)
             newKeysToRemove) = Some (StoreError ''read failed'')"
    using broken_walk by (simp add: exampleNames_def exampleMapper_def)
  have c: "chain scenarioPruner = Some 100100"
    "calculateNumOfPrunedBlocks 100100 (LastPrunedBlockNum scenarioPruner)
       (BlocksBeforePruning (config scenarioPruner)) (BlocksToPrune (config scenarioPruner)) =
     (0, 10100, True)"
    using scenario_range by (simp_all add: scenarioPruner_def)
  note t = decode_error_discarded_walk_error_returned
  from t[of exampleNames exampleMapper brokenStore 0 10100 "[]" "StoreError ''read failed''"] w
  have p: "Prune exampleNames exampleMapper brokenStore 0 10100 [] =
     Some (Inr (Some (StoreError ''read failed''), brokenStore, []))"
    by blast
  from t[of exampleNames exampleMapper brokenStore 0 10100 "[]" "StoreError ''read failed''"
           _ _ brokenStore "[]" scenarioPruner 100100] p c
  have k: "pruneTick exampleNames exampleMapper scenarioPruner brokenStore [] =
     Some (Inr (scenarioPruner, brokenStore,
                [LogError ''Pruning error'' (StoreError ''read failed'')], False))"
    by simp
  from t[of exampleNames failingMapper scenarioStore 0 10100 "[]"]
  have "Prune exampleNames (dropDecodeError failingMapper) scenarioStore 0 10100 [] =
     Prune exampleNames failingMapper scenarioStore 0 10100 []"
    by blast
  with p k show ?thesis by simp
qed

text \<open>
  C4 as stated fails: with a decoder that reports an error for every row, \<^verbatim>\<open>Prune\<close>
  over the scenario returns no error, and the tick advances \<open>LastPrunedBlockNum\<close> to
  10100 and goes on.
\<close>

theorem decode_error_ignored:
  "snd (snd (failingMapper ''PLAIN-ACS'' [19, 136] [1])) = Some (StoreError ''decode failed'') \<and>
   map_option (map_sum id fst) (Prune exampleNames failingMapper scenarioStore 0 10100 []) =
     Some (Inr None) \<and>
   map_option (map_sum id (\<lambda>(p, d, lg, run). (LastPrunedBlockNum p, lg, run)))
     (pruneTick exampleNames failingMapper scenarioPruner scenarioStore []) =
     Some (Inr (10100, [], True))"
  by code_simp

subsection \<open>Failed deletes and failed commits\<close>








subsection \<open>The constructor\<close>

lemma Seconds_less_1: "Seconds t < 1 \<longleftrightarrow> sint t < 1000000000"
proof -
  define x where "x = sint t"
  have "real_of_int (x sdiv 1000000000) + real_of_int (x smod 1000000000) / 1000000000 < 1
        \<longleftrightarrow> x < 1000000000"
  proof (cases "0 \<le> x")
    case True
    then have d: "x sdiv 1000000000 = x div 1000000000"
      and m: "x smod 1000000000 = x mod 1000000000"
      by (simp_all add: signed_divide_int_def signed_modulo_int_def sgn_if)
    show ?thesis
    proof (cases "x < 1000000000")
      case lt: True
      with True have "x div 1000000000 = 0" "x mod 1000000000 = x" by simp_all
      with lt show ?thesis by (simp add: d m)
    next
      case ge: False
      then have "1 \<le> x div 1000000000" by (simp add: pos_imp_zdiv_pos_iff)
      moreover have "0 \<le> x mod 1000000000" by simp
      ultimately have
        "1 \<le> real_of_int (x div 1000000000) + real_of_int (x mod 1000000000) / 1000000000"
        by (smt (verit) divide_nonneg_nonneg of_int_0_le_iff of_int_1_le_iff)
      with ge show ?thesis by (simp add: d m)
    qed
  next
    case False
    then have d: "x sdiv 1000000000 = - (\<bar>x\<bar> div 1000000000)"
      and m: "x smod 1000000000 = - (\<bar>x\<bar> mod 1000000000)"
      by (simp_all add: signed_divide_int_def signed_modulo_int_def sgn_if)
    have "0 \<le> \<bar>x\<bar> div 1000000000" "0 \<le> \<bar>x\<bar> mod 1000000000" by simp_all
    then have "real_of_int (- (\<bar>x\<bar> div 1000000000)) +
               real_of_int (- (\<bar>x\<bar> mod 1000000000)) / 1000000000 \<le> 0"
      by (smt (verit) divide_nonpos_nonneg of_int_le_0_iff)
    with False show ?thesis by (simp add: d m)
  qed
  then show ?thesis by (simp add: Seconds_def x_def Let_def)
qed

text \<open>
  C10. \<^verbatim>\<open>NewBasicPruner\<close> returns an error exactly when \<open>BlocksToPrune\<close> is 0 or
  \<open>PruneTimeout\<close> is less than one second (\<open>10^9\<close> nanoseconds); for every other
  configuration it returns, without error, a pruner with \<open>LastPrunedBlockNum = 0\<close>, an
  empty stop channel of capacity 1, the store, the chain and the configuration.
\<close>

theorem NewBasicPruner_error_iff:
  "((\<exists>e. NewBasicPruner database chainer cfg = Inl e) \<longleftrightarrow>
      BlocksToPrune cfg = 0 \<or> sint (PruneTimeout cfg) < 1000000000) \<and>
   (\<not> (BlocksToPrune cfg = 0 \<or> sint (PruneTimeout cfg) < 1000000000) \<longrightarrow>
      NewBasicPruner database chainer cfg =
        Inr \<lparr>wg = 0, stop = \<lparr>capacity = 1, queued = 0\<rparr>, db = database, chain = chainer,
             LastPrunedBlockNum = 0, config = cfg\<rparr>)"
  by (auto simp: NewBasicPruner_def Seconds_less_1)

theorem NewBasicPruner_error_iff_witness:
  "(\<exists>e. NewBasicPruner emptyStore None
          \<lparr>BlocksBeforePruning = 90000, BlocksToPrune = 0, PruneTimeout = 5000000000\<rparr> = Inl e) \<and>
   (\<exists>e. NewBasicPruner emptyStore None
          \<lparr>BlocksBeforePruning = 90000, BlocksToPrune = 70000, PruneTimeout = 999999999\<rparr> = Inl e) \<and>
   NewBasicPruner emptyStore None
     \<lparr>BlocksBeforePruning = 90000, BlocksToPrune = 70000, PruneTimeout = 1000000000\<rparr> =
     Inr \<lparr>wg = 0, stop = \<lparr>capacity = 1, queued = 0\<rparr>, db = emptyStore, chain = None,
          LastPrunedBlockNum = 0,
          config = \<lparr>BlocksBeforePruning = 90000, BlocksToPrune = 70000,
                    PruneTimeout = 1000000000\<rparr>\<rparr>"
  using NewBasicPruner_error_iff
      [of emptyStore None "\<lparr>BlocksBeforePruning = 90000, BlocksToPrune = 0, PruneTimeout = 5000000000\<rparr>"]
    NewBasicPruner_error_iff
      [of emptyStore None "\<lparr>BlocksBeforePruning = 90000, BlocksToPrune = 70000, PruneTimeout = 999999999\<rparr>"]
    NewBasicPruner_error_iff
      [of emptyStore None "\<lparr>BlocksBeforePruning = 90000, BlocksToPrune = 70000, PruneTimeout = 1000000000\<rparr>"]
  by simp

end
